theory Spec2Isabelle
  imports Main "HOL-Library.Multiset"
begin

section \<open>Board model of the tic-tac-toe player\<close>

text \<open>
  The source stores a board as a list of three lists of cells, a cell being
  \<^verbatim>\<open>"X"\<close>, \<^verbatim>\<open>"O"\<close> or \<^verbatim>\<open>None\<close> (the constant \<^verbatim>\<open>EMPTY\<close>).  An action is a pair of
  Python integers.  Exceptions are values: \<open>InvalidAction\<close> is the
  \<^verbatim>\<open>Exception('Not a valid action!')\<close> raised by \<^verbatim>\<open>result\<close>, \<open>IndexError\<close> is what a
  list subscript raises out of range.  The mark \<^verbatim>\<open>O\<close> is written \<open>O'\<close>, since \<open>O\<close>
  is the composition of relations in HOL.
\<close>

datatype cell = X | O' | EMPTY

type_synonym board = "cell list list"

type_synonym action = "int \<times> int"

datatype error = InvalidAction | IndexError

definition ACCURACY :: int where
  "ACCURACY = 999999"

definition initial_state :: board where
  "initial_state = [[EMPTY, EMPTY, EMPTY],
                    [EMPTY, EMPTY, EMPTY],
                    [EMPTY, EMPTY, EMPTY]]"

subsection \<open>List subscripts as Python evaluates them\<close>

text \<open>
  A subscript \<open>i\<close> of a list of length \<open>n\<close> addresses position \<open>i\<close> when
  \<open>0 \<le> i < n\<close>, position \<open>i + n\<close> when \<open>- n \<le> i < 0\<close>, and raises otherwise.
\<close>

definition index :: "'a list \<Rightarrow> int \<Rightarrow> error + nat" where
  "index xs i =
     (let n = int (length xs)
      in if 0 \<le> i \<and> i < n then Inr (nat i)
         else if - n \<le> i \<and> i < 0 then Inr (nat (i + n))
         else Inl IndexError)"

definition getitem :: "'a list \<Rightarrow> int \<Rightarrow> error + 'a" where
  "getitem xs i = (case index xs i of Inl e \<Rightarrow> Inl e | Inr k \<Rightarrow> Inr (xs ! k))"

definition setitem :: "'a list \<Rightarrow> int \<Rightarrow> 'a \<Rightarrow> error + 'a list" where
  "setitem xs i v = (case index xs i of Inl e \<Rightarrow> Inl e | Inr k \<Rightarrow> Inr (xs[k := v]))"

text \<open>\<^verbatim>\<open>board[i][j]\<close>\<close>

definition at :: "board \<Rightarrow> action \<Rightarrow> error + cell" where
  "at board p =
     (case getitem board (fst p) of Inl e \<Rightarrow> Inl e | Inr row \<Rightarrow> getitem row (snd p))"

subsection \<open>player, actions, result\<close>

definition count :: "board \<Rightarrow> int" where
  "count board =
     sum_list (map (\<lambda>elem. if elem = X then 1 else if elem = O' then - 1 else 0) (concat board))"

definition player :: "board \<Rightarrow> cell" where
  "player board = (if count board = 0 then X else O')"

definition actions :: "board \<Rightarrow> action list" where
  "actions board =
     [(int i, int j). (i, row) \<leftarrow> enumerate 0 board, (j, elem) \<leftarrow> enumerate 0 row, elem = EMPTY]"

definition result :: "board \<Rightarrow> action \<Rightarrow> error + board" where
  "result board action =
     (case action of (i, j) \<Rightarrow>
        (case getitem board i of Inl e \<Rightarrow> Inl e | Inr row \<Rightarrow>
        (case getitem row j of Inl e \<Rightarrow> Inl e | Inr c \<Rightarrow>
           if c \<noteq> EMPTY then Inl InvalidAction
           else (case setitem row j (player board) of Inl e \<Rightarrow> Inl e
                 | Inr new_row \<Rightarrow> setitem board i new_row))))"

subsection \<open>winner, terminal, utility\<close>

text \<open>
  The test \<^verbatim>\<open>board[p] == board[q] == board[r] and board[p] != EMPTY\<close>: a chained
  comparison reads its third operand only when the first two are equal.
\<close>

definition line_won :: "board \<Rightarrow> action \<Rightarrow> action \<Rightarrow> action \<Rightarrow> error + bool" where
  "line_won board p q r =
     (case at board p of Inl e \<Rightarrow> Inl e | Inr a \<Rightarrow>
     (case at board q of Inl e \<Rightarrow> Inl e | Inr b \<Rightarrow>
        if a \<noteq> b then Inr False
        else (case at board r of Inl e \<Rightarrow> Inl e | Inr c \<Rightarrow>
                if b \<noteq> c then Inr False
                else (case at board p of Inl e \<Rightarrow> Inl e | Inr a' \<Rightarrow> Inr (a' \<noteq> EMPTY)))))"

text \<open>
  The loop \<^verbatim>\<open>for i in range(3)\<close> of \<^verbatim>\<open>winner\<close>: row \<open>i\<close>, then column \<open>i\<close>.
  \<open>Some c\<close> is a \<^verbatim>\<open>return c\<close> from inside the loop, \<open>None\<close> its normal end.
\<close>

fun winner_loop :: "board \<Rightarrow> int list \<Rightarrow> error + cell option" where
  "winner_loop board [] = Inr None"
| "winner_loop board (i # rest) =
     (case line_won board (i, 0) (i, 1) (i, 2) of Inl e \<Rightarrow> Inl e | Inr row_hit \<Rightarrow>
        if row_hit then (case at board (i, 0) of Inl e \<Rightarrow> Inl e | Inr c \<Rightarrow> Inr (Some c))
        else (case line_won board (0, i) (1, i) (2, i) of Inl e \<Rightarrow> Inl e | Inr col_hit \<Rightarrow>
                if col_hit then (case at board (0, i) of Inl e \<Rightarrow> Inl e | Inr c \<Rightarrow> Inr (Some c))
                else winner_loop board rest))"

text \<open>\<open>EMPTY\<close> is Python's \<^verbatim>\<open>None\<close>, which \<^verbatim>\<open>winner\<close> returns when no line is complete.\<close>

definition winner :: "board \<Rightarrow> error + cell" where
  "winner board =
     (case winner_loop board [0, 1, 2] of Inl e \<Rightarrow> Inl e
      | Inr (Some c) \<Rightarrow> Inr c
      | Inr None \<Rightarrow>
         (case line_won board (0, 0) (1, 1) (2, 2) of Inl e \<Rightarrow> Inl e | Inr d1 \<Rightarrow>
            if d1 then at board (0, 0)
            else (case line_won board (0, 2) (1, 1) (2, 0) of Inl e \<Rightarrow> Inl e | Inr d2 \<Rightarrow>
                    if d2 then at board (0, 2) else Inr EMPTY)))"

text \<open>
  \<^verbatim>\<open>terminal\<close> returns \<^verbatim>\<open>winner(board) or actions(board) == []\<close>: the winner's mark
  (a non-empty string) when there is one, else the boolean of the comparison.
\<close>

datatype pyvalue = Mark cell | Bool bool

fun truthy :: "pyvalue \<Rightarrow> bool" where
  "truthy (Mark c) = (c \<noteq> EMPTY)"
| "truthy (Bool t) = t"

definition terminal :: "board \<Rightarrow> error + pyvalue" where
  "terminal board =
     (case winner board of Inl e \<Rightarrow> Inl e
      | Inr w \<Rightarrow> if truthy (Mark w) then Inr (Mark w) else Inr (Bool (actions board = [])))"

text \<open>\<^verbatim>\<open>{X : 1, O : -1}.get(winner(board), 0)\<close>\<close>

definition utility :: "board \<Rightarrow> error + int" where
  "utility board =
     (case winner board of Inl e \<Rightarrow> Inl e
      | Inr w \<Rightarrow> Inr (if w = X then 1 else if w = O' then - 1 else 0))"

section \<open>Search engine\<close>

subsection \<open>Scores\<close>

text \<open>
  The search compares the integers returned by \<^verbatim>\<open>utility\<close> with \<^verbatim>\<open>float('-inf')\<close> and
  \<^verbatim>\<open>float('inf')\<close>.
\<close>

datatype score = NegInf | Fin int | PosInf

instantiation score :: linorder
begin

fun less_eq_score :: "score \<Rightarrow> score \<Rightarrow> bool" where
  "less_eq_score NegInf _ = True"
| "less_eq_score (Fin a) NegInf = False"
| "less_eq_score (Fin a) (Fin b) = (a \<le> b)"
| "less_eq_score (Fin a) PosInf = True"
| "less_eq_score PosInf PosInf = True"
| "less_eq_score PosInf _ = False"

definition less_score :: "score \<Rightarrow> score \<Rightarrow> bool" where
  "less_score a b = (a \<le> b \<and> \<not> b \<le> a)"

instance
proof
  fix x y z :: score
  show "(x < y) = (x \<le> y \<and> \<not> y \<le> x)" by (simp add: less_score_def)
  show "x \<le> x" by (cases x) simp_all
  show "x \<le> y \<Longrightarrow> y \<le> z \<Longrightarrow> x \<le> z" by (cases x; cases y; cases z) simp_all
  show "x \<le> y \<Longrightarrow> y \<le> x \<Longrightarrow> x = y" by (cases x; cases y) simp_all
  show "x \<le> y \<or> y \<le> x" by (cases x; cases y) auto
qed

end

subsection \<open>The random source\<close>

text \<open>
  \<^verbatim>\<open>random.shuffle\<close> belongs to Python's library, not to the program.  It is a
  parameter of the search: a function from the state of the random source and a list
  to the reordered list and the next state.  \<open>permutes\<close> is what the library promises
  of it.
\<close>

type_synonym 'r shuffle = "'r \<Rightarrow> action list \<Rightarrow> action list \<times> 'r"

type_synonym 'r found = "error + ((score \<times> action option) \<times> 'r)"

definition permutes :: "'r shuffle \<Rightarrow> bool" where
  "permutes shuffle = (\<forall>rng xs. mset (fst (shuffle rng xs)) = mset xs)"

subsection \<open>minValue and maxValue\<close>

text \<open>The base case of both: \<^verbatim>\<open>return utility(board), None\<close>.\<close>

definition leaf :: "board \<Rightarrow> 'r \<Rightarrow> 'r found" where
  "leaf board rng = (case utility board of Inl e \<Rightarrow> Inl e | Inr u \<Rightarrow> Inr ((Fin u, None), rng))"

text \<open>The number of empty cells, which every successful \<^verbatim>\<open>result\<close> lowers by one.\<close>

definition empties :: "board \<Rightarrow> nat" where
  "empties board = length (filter (\<lambda>elem. elem = EMPTY) (concat board))"



lemma index_Inr: "index xs i = Inr k \<Longrightarrow> k < length xs"
  by (auto simp: index_def Let_def split: if_splits)

lemma getitem_Inr: "getitem xs i = Inr x \<Longrightarrow> \<exists>k. index xs i = Inr k \<and> k < length xs \<and> x = xs ! k"
  by (auto simp: getitem_def split: sum.splits dest: index_Inr)

lemma setitem_Inr: "setitem xs i v = Inr ys \<Longrightarrow> \<exists>k. index xs i = Inr k \<and> k < length xs \<and> ys = xs[k := v]"
  by (auto simp: setitem_def split: sum.splits dest: index_Inr)

lemma result_Inr:
  assumes "result board (i, j) = Inr child"
  shows "\<exists>ki kj. index board i = Inr ki \<and> ki < length board \<and> index (board ! ki) j = Inr kj
          \<and> kj < length (board ! ki) \<and> board ! ki ! kj = EMPTY
          \<and> child = board[ki := (board ! ki)[kj := player board]]"
  using assms
  by (fastforce simp: result_def split: sum.splits if_splits dest!: getitem_Inr setitem_Inr)

lemma player_not_EMPTY: "player board \<noteq> EMPTY"
  by (simp add: player_def)

lemma filter_update_EMPTY:
  assumes "k < length xs" "xs ! k = EMPTY" "c \<noteq> EMPTY"
  shows "Suc (length (filter (\<lambda>e. e = EMPTY) (xs[k := c]))) = length (filter (\<lambda>e. e = EMPTY) xs)"
proof -
  have "xs = take k xs @ xs ! k # drop (Suc k) xs"
    using assms(1) by (simp add: id_take_nth_drop)
  then have "length (filter (\<lambda>e. e = EMPTY) xs)
      = length (filter (\<lambda>e. e = EMPTY) (take k xs @ EMPTY # drop (Suc k) xs))"
    using assms(2) by simp
  then show ?thesis
    using assms(1,3) by (simp add: upd_conv_take_nth_drop)
qed

lemma empties_update:
  assumes "ki < length board" "kj < length (board ! ki)" "board ! ki ! kj = EMPTY" "c \<noteq> EMPTY"
  shows "Suc (empties (board[ki := (board ! ki)[kj := c]])) = empties board"
proof -
  have b: "board = take ki board @ board ! ki # drop (Suc ki) board"
    using assms(1) by (simp add: id_take_nth_drop)
  have "empties board = empties (take ki board @ board ! ki # drop (Suc ki) board)"
    using b by simp
  then show ?thesis
    using assms filter_update_EMPTY [OF assms(2,3,4)]
    by (simp add: empties_def upd_conv_take_nth_drop)
qed

lemma result_empties: "result board action = Inr child \<Longrightarrow> Suc (empties child) = empties board"
  by (cases action) (auto dest!: result_Inr simp: empties_update player_not_EMPTY)


text \<open>
  Each \<^verbatim>\<open>for\<close> loop is a function of the loop's variables and the actions still to
  visit; the \<^verbatim>\<open>break\<close> returns at once.
\<close>

function minValue :: "'r shuffle \<Rightarrow> board \<Rightarrow> int \<Rightarrow> score \<Rightarrow> score \<Rightarrow> 'r \<Rightarrow> 'r found"
  and minLoop :: "'r shuffle \<Rightarrow> board \<Rightarrow> int \<Rightarrow> score \<Rightarrow> score \<Rightarrow> score \<Rightarrow> action option
                    \<Rightarrow> action list \<Rightarrow> 'r \<Rightarrow> 'r found"
  and maxValue :: "'r shuffle \<Rightarrow> board \<Rightarrow> int \<Rightarrow> score \<Rightarrow> score \<Rightarrow> 'r \<Rightarrow> 'r found"
  and maxLoop :: "'r shuffle \<Rightarrow> board \<Rightarrow> int \<Rightarrow> score \<Rightarrow> score \<Rightarrow> score \<Rightarrow> action option
                    \<Rightarrow> action list \<Rightarrow> 'r \<Rightarrow> 'r found"
where
  "minValue shuffle board depth alpha beta rng =
     (if depth < 0 then leaf board rng
      else (case terminal board of Inl e \<Rightarrow> Inl e | Inr t \<Rightarrow>
        if truthy t then leaf board rng
        else (case shuffle rng (actions board) of (available_actions, rng') \<Rightarrow>
                minLoop shuffle board depth alpha beta PosInf None available_actions rng')))"
| "minLoop shuffle board depth alpha beta v best_action [] rng = Inr ((v, best_action), rng)"
| "minLoop shuffle board depth alpha beta v best_action (action # rest) rng =
     (case result board action of Inl e \<Rightarrow> Inl e | Inr child \<Rightarrow>
     (case maxValue shuffle child (depth - 1) alpha beta rng of Inl e \<Rightarrow> Inl e
      | Inr ((score, _), rng') \<Rightarrow>
          (let v' = (if v > score then score else v);
               best_action' = (if v > score then Some action else best_action);
               beta' = min beta v'
           in if beta' \<le> alpha then Inr ((v', best_action'), rng')
              else minLoop shuffle board depth alpha beta' v' best_action' rest rng')))"
| "maxValue shuffle board depth alpha beta rng =
     (if depth < 0 then leaf board rng
      else (case terminal board of Inl e \<Rightarrow> Inl e | Inr t \<Rightarrow>
        if truthy t then leaf board rng
        else (case shuffle rng (actions board) of (available_actions, rng') \<Rightarrow>
                maxLoop shuffle board depth alpha beta NegInf None available_actions rng')))"
| "maxLoop shuffle board depth alpha beta v best_action [] rng = Inr ((v, best_action), rng)"
| "maxLoop shuffle board depth alpha beta v best_action (action # rest) rng =
     (case result board action of Inl e \<Rightarrow> Inl e | Inr child \<Rightarrow>
     (case minValue shuffle child (depth - 1) alpha beta rng of Inl e \<Rightarrow> Inl e
      | Inr ((score, _), rng') \<Rightarrow>
          (let v' = (if v < score then score else v);
               best_action' = (if v < score then Some action else best_action);
               alpha' = max alpha v'
           in if beta \<le> alpha' then Inr ((v', best_action'), rng')
              else maxLoop shuffle board depth alpha' beta v' best_action' rest rng')))"
  by pat_completeness auto
termination
proof (relation "measures
    [\<lambda>x. case x of
        Inl (Inl (sh, b, d, al, be, r)) \<Rightarrow> empties b
      | Inl (Inr (sh, b, d, al, be, v, best, as, r)) \<Rightarrow> empties b
      | Inr (Inl (sh, b, d, al, be, r)) \<Rightarrow> empties b
      | Inr (Inr (sh, b, d, al, be, v, best, as, r)) \<Rightarrow> empties b,
     \<lambda>x. case x of
        Inl (Inl (sh, b, d, al, be, r)) \<Rightarrow> 1
      | Inl (Inr (sh, b, d, al, be, v, best, as, r)) \<Rightarrow> 0
      | Inr (Inl (sh, b, d, al, be, r)) \<Rightarrow> 1
      | Inr (Inr (sh, b, d, al, be, v, best, as, r)) \<Rightarrow> 0,
     \<lambda>x. case x of
        Inl (Inl (sh, b, d, al, be, r)) \<Rightarrow> 0
      | Inl (Inr (sh, b, d, al, be, v, best, as, r)) \<Rightarrow> length as
      | Inr (Inl (sh, b, d, al, be, r)) \<Rightarrow> 0
      | Inr (Inr (sh, b, d, al, be, v, best, as, r)) \<Rightarrow> length as]", goal_cases)
  case 1
  show ?case by simp
next
  case 2
  then show ?case by simp
next
  case 3
  then show ?case using result_empties by fastforce
next
  case 4
  then show ?case by simp
next
  case 5
  then show ?case by simp
next
  case 6
  then show ?case using result_empties by fastforce
next
  case 7
  then show ?case by simp
qed


subsection \<open>minimax\<close>

definition minimax :: "'r shuffle \<Rightarrow> board \<Rightarrow> 'r \<Rightarrow> error + (action option \<times> 'r)" where
  "minimax shuffle board rng =
     (if board = initial_state then Inr (Some (0, 0), rng)
      else (case (if player board = X then maxValue else minValue)
                   shuffle board ACCURACY NegInf PosInf rng of
              Inl e \<Rightarrow> Inl e
            | Inr ((_, action), rng') \<Rightarrow> Inr (action, rng')))"

declare maxValue.simps [simp del] minValue.simps [simp del]

section \<open>Notions the properties are stated with\<close>

subsection \<open>Boards, lines and reachability\<close>

text \<open>A board as the data model has it: three rows of three cells.\<close>

definition is_board :: "board \<Rightarrow> bool" where
  "is_board board = (length board = 3 \<and> list_all (\<lambda>row. length row = 3) board)"

text \<open>Three equal marks: what one line test of \<^verbatim>\<open>winner\<close> decides.\<close>

definition three :: "cell \<Rightarrow> cell \<Rightarrow> cell \<Rightarrow> bool" where
  "three a b c = (a = b \<and> b = c \<and> a \<noteq> EMPTY)"

text \<open>The eight lines, and the cells that would complete one for a mark.\<close>

definition lines :: "(action \<times> action \<times> action) list" where
  "lines = [((0, 0), (0, 1), (0, 2)), ((1, 0), (1, 1), (1, 2)), ((2, 0), (2, 1), (2, 2)),
            ((0, 0), (1, 0), (2, 0)), ((0, 1), (1, 1), (2, 1)), ((0, 2), (1, 2), (2, 2)),
            ((0, 0), (1, 1), (2, 2)), ((0, 2), (1, 1), (2, 0))]"

definition completes :: "board \<Rightarrow> cell \<Rightarrow> action \<Rightarrow> bool" where
  "completes board mark a =
     list_ex (\<lambda>(p, q, r).
        (a = p \<and> at board p = Inr EMPTY \<and> at board q = Inr mark \<and> at board r = Inr mark)
      \<or> (a = q \<and> at board q = Inr EMPTY \<and> at board p = Inr mark \<and> at board r = Inr mark)
      \<or> (a = r \<and> at board r = Inr EMPTY \<and> at board p = Inr mark \<and> at board q = Inr mark))
       lines"

text \<open>The boards of a game: the initial state and what legal actions make of it.\<close>

inductive reachable :: "board \<Rightarrow> bool" where
  start: "reachable initial_state"
| move: "reachable board \<Longrightarrow> action \<in> set (actions board) \<Longrightarrow> result board action = Inr child
           \<Longrightarrow> reachable child"

subsection \<open>The value of a board under optimal play\<close>

text \<open>
  The glossary's minimax: the utility of a finished game, and otherwise the best value among
  the successor boards for the player to move, \<open>X\<close> maximising and \<open>O\<close> minimising.
  \<open>game_over\<close> and \<open>payoff\<close> read \<^verbatim>\<open>terminal\<close> and \<^verbatim>\<open>utility\<close>; on a board of three rows of
  three cells neither raises.
\<close>

definition successors :: "board \<Rightarrow> board list" where
  "successors board =
     concat (map (\<lambda>action. case result board action of Inl e \<Rightarrow> [] | Inr child \<Rightarrow> [child])
       (actions board))"

definition game_over :: "board \<Rightarrow> bool" where
  "game_over board = (case terminal board of Inl e \<Rightarrow> True | Inr t \<Rightarrow> truthy t)"

definition payoff :: "board \<Rightarrow> int" where
  "payoff board = (case utility board of Inl e \<Rightarrow> 0 | Inr u \<Rightarrow> u)"

lemma successors_empties: "child \<in> set (successors board) \<Longrightarrow> empties child < empties board"
  by (fastforce simp: successors_def split: sum.splits dest: result_empties [OF sym])

function optimal_value :: "board \<Rightarrow> int" where
  "optimal_value board =
     (if game_over board then payoff board
      else if player board = X then Max (set (map optimal_value (successors board)))
      else Min (set (map optimal_value (successors board))))"
  by pat_completeness auto
termination
  by (relation "measure empties") (auto simp: successors_empties)

text \<open>
  The same values with the roles fixed by the function rather than by \<^verbatim>\<open>player\<close>, as
  \<^verbatim>\<open>maxValue\<close> and \<^verbatim>\<open>minValue\<close> alternate whatever the marks on the board.
\<close>

function max_value :: "board \<Rightarrow> int" and min_value :: "board \<Rightarrow> int" where
  "max_value board =
     (if game_over board then payoff board
      else Max (set (map min_value (successors board))))"
| "min_value board =
     (if game_over board then payoff board
      else Min (set (map max_value (successors board))))"
  by pat_completeness auto
termination
  by (relation "measure (\<lambda>x. case x of Inl b \<Rightarrow> empties b | Inr b \<Rightarrow> empties b)")
    (auto simp: successors_empties)

declare optimal_value.simps [simp del] max_value.simps [simp del] min_value.simps [simp del]

subsection \<open>The search with pruning disabled\<close>

text \<open>
  \<^verbatim>\<open>minValue\<close> and \<^verbatim>\<open>maxValue\<close> with the test \<^verbatim>\<open>if beta <= alpha: break\<close> removed, and nothing
  else changed.
\<close>

function minValue_unpruned :: "'r shuffle \<Rightarrow> board \<Rightarrow> int \<Rightarrow> score \<Rightarrow> score \<Rightarrow> 'r \<Rightarrow> 'r found"
  and minLoop_unpruned :: "'r shuffle \<Rightarrow> board \<Rightarrow> int \<Rightarrow> score \<Rightarrow> score \<Rightarrow> score \<Rightarrow> action option
                    \<Rightarrow> action list \<Rightarrow> 'r \<Rightarrow> 'r found"
  and maxValue_unpruned :: "'r shuffle \<Rightarrow> board \<Rightarrow> int \<Rightarrow> score \<Rightarrow> score \<Rightarrow> 'r \<Rightarrow> 'r found"
  and maxLoop_unpruned :: "'r shuffle \<Rightarrow> board \<Rightarrow> int \<Rightarrow> score \<Rightarrow> score \<Rightarrow> score \<Rightarrow> action option
                    \<Rightarrow> action list \<Rightarrow> 'r \<Rightarrow> 'r found"
where
  "minValue_unpruned shuffle board depth alpha beta rng =
     (if depth < 0 then leaf board rng
      else (case terminal board of Inl e \<Rightarrow> Inl e | Inr t \<Rightarrow>
        if truthy t then leaf board rng
        else (case shuffle rng (actions board) of (available_actions, rng') \<Rightarrow>
                minLoop_unpruned shuffle board depth alpha beta PosInf None available_actions rng')))"
| "minLoop_unpruned shuffle board depth alpha beta v best_action [] rng = Inr ((v, best_action), rng)"
| "minLoop_unpruned shuffle board depth alpha beta v best_action (action # rest) rng =
     (case result board action of Inl e \<Rightarrow> Inl e | Inr child \<Rightarrow>
     (case maxValue_unpruned shuffle child (depth - 1) alpha beta rng of Inl e \<Rightarrow> Inl e
      | Inr ((score, _), rng') \<Rightarrow>
          (let v' = (if v > score then score else v);
               best_action' = (if v > score then Some action else best_action);
               beta' = min beta v'
           in minLoop_unpruned shuffle board depth alpha beta' v' best_action' rest rng')))"
| "maxValue_unpruned shuffle board depth alpha beta rng =
     (if depth < 0 then leaf board rng
      else (case terminal board of Inl e \<Rightarrow> Inl e | Inr t \<Rightarrow>
        if truthy t then leaf board rng
        else (case shuffle rng (actions board) of (available_actions, rng') \<Rightarrow>
                maxLoop_unpruned shuffle board depth alpha beta NegInf None available_actions rng')))"
| "maxLoop_unpruned shuffle board depth alpha beta v best_action [] rng = Inr ((v, best_action), rng)"
| "maxLoop_unpruned shuffle board depth alpha beta v best_action (action # rest) rng =
     (case result board action of Inl e \<Rightarrow> Inl e | Inr child \<Rightarrow>
     (case minValue_unpruned shuffle child (depth - 1) alpha beta rng of Inl e \<Rightarrow> Inl e
      | Inr ((score, _), rng') \<Rightarrow>
          (let v' = (if v < score then score else v);
               best_action' = (if v < score then Some action else best_action);
               alpha' = max alpha v'
           in maxLoop_unpruned shuffle board depth alpha' beta v' best_action' rest rng')))"
  by pat_completeness auto
termination
proof (relation "measures
    [\<lambda>x. case x of
        Inl (Inl (sh, b, d, al, be, r)) \<Rightarrow> empties b
      | Inl (Inr (sh, b, d, al, be, v, best, as, r)) \<Rightarrow> empties b
      | Inr (Inl (sh, b, d, al, be, r)) \<Rightarrow> empties b
      | Inr (Inr (sh, b, d, al, be, v, best, as, r)) \<Rightarrow> empties b,
     \<lambda>x. case x of
        Inl (Inl (sh, b, d, al, be, r)) \<Rightarrow> 1
      | Inl (Inr (sh, b, d, al, be, v, best, as, r)) \<Rightarrow> 0
      | Inr (Inl (sh, b, d, al, be, r)) \<Rightarrow> 1
      | Inr (Inr (sh, b, d, al, be, v, best, as, r)) \<Rightarrow> 0,
     \<lambda>x. case x of
        Inl (Inl (sh, b, d, al, be, r)) \<Rightarrow> 0
      | Inl (Inr (sh, b, d, al, be, v, best, as, r)) \<Rightarrow> length as
      | Inr (Inl (sh, b, d, al, be, r)) \<Rightarrow> 0
      | Inr (Inr (sh, b, d, al, be, v, best, as, r)) \<Rightarrow> length as]", goal_cases)
  case 1
  show ?case by simp
next
  case 2
  then show ?case by simp
next
  case 3
  then show ?case using result_empties by fastforce
next
  case 4
  then show ?case by simp
next
  case 5
  then show ?case by simp
next
  case 6
  then show ?case using result_empties by fastforce
next
  case 7
  then show ?case by simp
qed

declare maxValue_unpruned.simps [simp del] minValue_unpruned.simps [simp del]

subsection \<open>What a window promises of a returned score\<close>

text \<open>
  A score \<open>s\<close> returned for the window from \<open>alpha\<close> to \<open>beta\<close> fits the value \<open>t\<close> when it
  bounds \<open>t\<close> from above at or below \<open>alpha\<close>, from below at or above \<open>beta\<close>, and equals \<open>t\<close>
  in between.
\<close>

definition fits :: "score \<Rightarrow> score \<Rightarrow> score \<Rightarrow> score \<Rightarrow> bool" where
  "fits alpha beta t s =
     ((s \<le> alpha \<longrightarrow> t \<le> s) \<and> (alpha < s \<and> s < beta \<longrightarrow> s = t) \<and> (beta \<le> s \<longrightarrow> s \<le> t))"

subsection \<open>Three random sources\<close>

text \<open>
  Sources without state: one that leaves the actions as enumerated, one that reverses
  them, and one that puts the centre first, then the corners, then the edges.
\<close>

definition in_order :: "unit shuffle" where
  "in_order = (\<lambda>rng xs. (xs, rng))"

definition reversed :: "unit shuffle" where
  "reversed = (\<lambda>rng xs. (rev xs, rng))"

definition by_place :: "unit shuffle" where
  "by_place = (\<lambda>rng xs.
     (filter (\<lambda>a. a = (1, 1)) xs
        @ filter (\<lambda>a. a \<noteq> (1, 1) \<and> fst a \<noteq> 1 \<and> snd a \<noteq> 1) xs
        @ filter (\<lambda>a. a \<noteq> (1, 1) \<and> \<not> (fst a \<noteq> 1 \<and> snd a \<noteq> 1)) xs, rng))"

section \<open>Properties of the board model\<close>

lemma length3: "length xs = 3 \<Longrightarrow> \<exists>a b c. xs = [a, b, c]"
  by (cases xs; simp; cases "tl xs"; simp; cases "tl (tl xs)"; simp)

lemma is_board_cases:
  assumes "is_board board"
  obtains a0 a1 a2 b0 b1 b2 c0 c1 c2
  where "board = [[a0, a1, a2], [b0, b1, b2], [c0, c1, c2]]"
proof -
  from assms obtain r0 r1 r2 where b: "board = [r0, r1, r2]"
    unfolding is_board_def using length3 by blast
  with assms have "length r0 = 3" "length r1 = 3" "length r2 = 3"
    by (simp_all add: is_board_def)
  then show thesis using that b by (metis length3)
qed

lemma actions_iff:
  "a \<in> set (actions board) \<longleftrightarrow>
     (\<exists>i j. a = (int i, int j) \<and> i < length board \<and> j < length (board ! i) \<and> board ! i ! j = EMPTY)"
proof
  assume "a \<in> set (actions board)"
  then show "\<exists>i j. a = (int i, int j) \<and> i < length board \<and> j < length (board ! i) \<and> board ! i ! j = EMPTY"
    by (auto simp: actions_def in_set_enumerate_eq)
next
  assume "\<exists>i j. a = (int i, int j) \<and> i < length board \<and> j < length (board ! i) \<and> board ! i ! j = EMPTY"
  then obtain i j where a: "a = (int i, int j)" and ij: "i < length board" "j < length (board ! i)" "board ! i ! j = EMPTY"
    by blast
  have "(i, board ! i) \<in> set (enumerate 0 board)" "(j, EMPTY) \<in> set (enumerate 0 (board ! i))"
    using ij by (simp_all add: in_set_enumerate_eq)
  then show "a \<in> set (actions board)"
    unfolding actions_def a by force
qed

lemma index_nat: "k < length xs \<Longrightarrow> index xs (int k) = Inr k"
  by (simp add: index_def)

lemma result_legal:
  assumes "i < length board" "j < length (board ! i)" "board ! i ! j = EMPTY"
  shows "result board (int i, int j) = Inr (board[i := (board ! i)[j := player board]])"
  using assms by (simp add: result_def getitem_def setitem_def index_nat)

lemma count_update:
  assumes "ki < length board" "kj < length (board ! ki)" "board ! ki ! kj = EMPTY"
  shows "count (board[ki := (board ! ki)[kj := c]])
           = count board + (if c = X then 1 else if c = O' then - 1 else 0)"
proof -
  let ?w = "\<lambda>elem. if elem = X then 1 else if elem = O' then - 1 else (0::int)"
  have r: "(board ! ki) = take kj (board ! ki) @ EMPTY # drop (Suc kj) (board ! ki)"
    using assms(2,3) by (metis id_take_nth_drop)
  have "sum_list (map ?w (board ! ki)) = sum_list (map ?w (take kj (board ! ki) @ EMPTY # drop (Suc kj) (board ! ki)))"
    using r by simp
  then have row: "sum_list (map ?w ((board ! ki)[kj := c])) = sum_list (map ?w (board ! ki)) + ?w c"
    using assms(2) by (simp add: upd_conv_take_nth_drop)
  have b: "board = take ki board @ board ! ki # drop (Suc ki) board"
    using assms(1) by (simp add: id_take_nth_drop)
  have "count board = count (take ki board @ board ! ki # drop (Suc ki) board)"
    using b by simp
  then show ?thesis
    using assms(1) row by (simp add: count_def upd_conv_take_nth_drop)
qed

lemma index3:
  "length xs = 3 \<Longrightarrow>
     index xs i = (if - 3 \<le> i \<and> i \<le> 2 then Inr (nat (i mod 3)) else Inl IndexError)"
proof -
  have neg: "i mod 3 = i + 3" if "- 3 \<le> i" "i < 0"
  proof -
    have "(i + 3) mod 3 = i + 3" using that by (intro mod_pos_pos_trivial) simp_all
    then show ?thesis by simp
  qed
  show ?thesis if "length xs = 3"
    using that neg by (auto simp: index_def Let_def)
qed

lemma is_board_row: "is_board board \<Longrightarrow> k < 3 \<Longrightarrow> length (board ! k) = 3"
  by (auto simp: is_board_def list_all_length)

lemma at_3x3:
  "at [[a0, a1, a2], [b0, b1, b2], [c0, c1, c2]] (0, 0) = Inr a0"
  "at [[a0, a1, a2], [b0, b1, b2], [c0, c1, c2]] (0, 1) = Inr a1"
  "at [[a0, a1, a2], [b0, b1, b2], [c0, c1, c2]] (0, 2) = Inr a2"
  "at [[a0, a1, a2], [b0, b1, b2], [c0, c1, c2]] (1, 0) = Inr b0"
  "at [[a0, a1, a2], [b0, b1, b2], [c0, c1, c2]] (1, 1) = Inr b1"
  "at [[a0, a1, a2], [b0, b1, b2], [c0, c1, c2]] (1, 2) = Inr b2"
  "at [[a0, a1, a2], [b0, b1, b2], [c0, c1, c2]] (2, 0) = Inr c0"
  "at [[a0, a1, a2], [b0, b1, b2], [c0, c1, c2]] (2, 1) = Inr c1"
  "at [[a0, a1, a2], [b0, b1, b2], [c0, c1, c2]] (2, 2) = Inr c2"
  by (simp_all add: at_def getitem_def index_def)

lemma line_won_Inr:
  "at board p = Inr a \<Longrightarrow> at board q = Inr b \<Longrightarrow> at board r = Inr c
     \<Longrightarrow> line_won board p q r = Inr (three a b c)"
  by (auto simp: line_won_def three_def)

lemma winner_3x3:
  "winner [[a0, a1, a2], [b0, b1, b2], [c0, c1, c2]] =
     Inr (if three a0 a1 a2 then a0 else if three a0 b0 c0 then a0
          else if three b0 b1 b2 then b0 else if three a1 b1 c1 then a1
          else if three c0 c1 c2 then c0 else if three a2 b2 c2 then a2
          else if three a0 b1 c2 then a0 else if three a2 b1 c0 then a2 else EMPTY)"
  by (simp add: winner_def line_won_Inr at_3x3)

lemma winner_board: "is_board board \<Longrightarrow> \<exists>w. winner board = Inr w"
  by (erule is_board_cases) (simp only: winner_3x3, blast)

lemma terminal_truthy:
  "terminal board = Inr t \<Longrightarrow>
     truthy t \<longleftrightarrow> (\<exists>w. winner board = Inr w \<and> w \<noteq> EMPTY) \<or> actions board = []"
  by (auto simp: terminal_def split: sum.splits if_splits)

lemma terminal_initial_state: "terminal initial_state = Inr (Bool False)"
  by (simp add: terminal_def initial_state_def winner_3x3 three_def actions_def)

lemma is_board_initial_state: "is_board initial_state"
  by (simp add: is_board_def initial_state_def)

lemma count_3x3:
  "count [[a0, a1, a2], [b0, b1, b2], [c0, c1, c2]] =
     (\<Sum>e\<leftarrow>[a0, a1, a2, b0, b1, b2, c0, c1, c2]. if e = X then 1 else if e = O' then - 1 else 0)"
  by (simp add: count_def)

lemma actions_3x3:
  "actions [[a0, a1, a2], [b0, b1, b2], [c0, c1, c2]] =
     (if a0 = EMPTY then [(0, 0)] else []) @ (if a1 = EMPTY then [(0, 1)] else []) @
     (if a2 = EMPTY then [(0, 2)] else []) @ (if b0 = EMPTY then [(1, 0)] else []) @
     (if b1 = EMPTY then [(1, 1)] else []) @ (if b2 = EMPTY then [(1, 2)] else []) @
     (if c0 = EMPTY then [(2, 0)] else []) @ (if c1 = EMPTY then [(2, 1)] else []) @
     (if c2 = EMPTY then [(2, 2)] else [])"
  by (simp add: actions_def)

lemma result_3x3:
  "result [[EMPTY, a1, a2], [b0, b1, b2], [c0, c1, c2]] (0, 0) = Inr [[player [[EMPTY, a1, a2], [b0, b1, b2], [c0, c1, c2]], a1, a2], [b0, b1, b2], [c0, c1, c2]]"
  "result [[a0, EMPTY, a2], [b0, b1, b2], [c0, c1, c2]] (0, 1) = Inr [[a0, player [[a0, EMPTY, a2], [b0, b1, b2], [c0, c1, c2]], a2], [b0, b1, b2], [c0, c1, c2]]"
  "result [[a0, a1, EMPTY], [b0, b1, b2], [c0, c1, c2]] (0, 2) = Inr [[a0, a1, player [[a0, a1, EMPTY], [b0, b1, b2], [c0, c1, c2]]], [b0, b1, b2], [c0, c1, c2]]"
  "result [[a0, a1, a2], [EMPTY, b1, b2], [c0, c1, c2]] (1, 0) = Inr [[a0, a1, a2], [player [[a0, a1, a2], [EMPTY, b1, b2], [c0, c1, c2]], b1, b2], [c0, c1, c2]]"
  "result [[a0, a1, a2], [b0, EMPTY, b2], [c0, c1, c2]] (1, 1) = Inr [[a0, a1, a2], [b0, player [[a0, a1, a2], [b0, EMPTY, b2], [c0, c1, c2]], b2], [c0, c1, c2]]"
  "result [[a0, a1, a2], [b0, b1, EMPTY], [c0, c1, c2]] (1, 2) = Inr [[a0, a1, a2], [b0, b1, player [[a0, a1, a2], [b0, b1, EMPTY], [c0, c1, c2]]], [c0, c1, c2]]"
  "result [[a0, a1, a2], [b0, b1, b2], [EMPTY, c1, c2]] (2, 0) = Inr [[a0, a1, a2], [b0, b1, b2], [player [[a0, a1, a2], [b0, b1, b2], [EMPTY, c1, c2]], c1, c2]]"
  "result [[a0, a1, a2], [b0, b1, b2], [c0, EMPTY, c2]] (2, 1) = Inr [[a0, a1, a2], [b0, b1, b2], [c0, player [[a0, a1, a2], [b0, b1, b2], [c0, EMPTY, c2]], c2]]"
  "result [[a0, a1, a2], [b0, b1, b2], [c0, c1, EMPTY]] (2, 2) = Inr [[a0, a1, a2], [b0, b1, b2], [c0, c1, player [[a0, a1, a2], [b0, b1, b2], [c0, c1, EMPTY]]]]"
  by (simp_all add: result_def getitem_def setitem_def index_def)

lemma player_3x3:
  "player [[a0, a1, a2], [b0, b1, b2], [c0, c1, c2]] =
     (if length (filter (\<lambda>e. e = X) [a0, a1, a2, b0, b1, b2, c0, c1, c2])
         = length (filter (\<lambda>e. e = O') [a0, a1, a2, b0, b1, b2, c0, c1, c2]) then X else O')"
proof -
  have "(\<Sum>e\<leftarrow>xs. if e = X then 1 else if e = O' then - 1 else 0)
      = int (length (filter (\<lambda>e. e = X) xs)) - int (length (filter (\<lambda>e. e = O') xs))" for xs
    by (induction xs) auto
  then show ?thesis by (simp only: player_def count_3x3) auto
qed

lemma length_steps: "length (x # xs) = Suc (length xs)" "length [] = 0"
  by simp_all

lemma depth_steps:
  "(9::int) - 1 = 8" "(8::int) - 1 = 7" "(7::int) - 1 = 6" "(6::int) - 1 = 5" "(5::int) - 1 = 4"
  "(4::int) - 1 = 3" "(3::int) - 1 = 2" "(2::int) - 1 = 1" "(1::int) - 1 = 0"
  "((9::int) < 0) = False" "((8::int) < 0) = False" "((7::int) < 0) = False"
  "((6::int) < 0) = False" "((5::int) < 0) = False" "((4::int) < 0) = False"
  "((3::int) < 0) = False" "((2::int) < 0) = False" "((1::int) < 0) = False"
  "((0::int) < 0) = False"
  by simp_all

lemma int_order:
  "((- 1::int) \<le> - 1) = True" "((- 1::int) \<le> 0) = True" "((- 1::int) \<le> 1) = True"
  "((0::int) \<le> - 1) = False" "((0::int) \<le> 0) = True" "((0::int) \<le> 1) = True"
  "((1::int) \<le> - 1) = False" "((1::int) \<le> 0) = False" "((1::int) \<le> 1) = True"
  "((0::int) = 1) = False" "((1::int) = 0) = False" "((0::int) = 2) = False"
  "((2::int) = 0) = False" "((1::int) = 2) = False" "((2::int) = 1) = False"
  by simp_all

subsection \<open>The state transition\<close>

text \<open>
  C3, as the code has it.  \<^verbatim>\<open>result\<close> checks no range: a coordinate from \<open>-3\<close> to \<open>-1\<close>
  addresses a row or column from the end, as every Python subscript does, and a coordinate
  below \<open>-3\<close> or above \<open>2\<close> raises the subscript's \<^verbatim>\<open>IndexError\<close>, not the exception of
  \<^verbatim>\<open>result\<close>.  With \<open>i\<close> and \<open>j\<close> in \<open>-3 .. 2\<close>, \<^verbatim>\<open>result\<close> raises its exception when the
  addressed cell is occupied, and otherwise returns the board changed in that one cell to
  the mark of the player to move.
\<close>

theorem result_raises_or_marks:
  assumes "is_board board"
  shows "result board (i, j) =
     (if i < - 3 \<or> 2 < i \<or> j < - 3 \<or> 2 < j then Inl IndexError
      else if board ! nat (i mod 3) ! nat (j mod 3) \<noteq> EMPTY then Inl InvalidAction
      else Inr (board[nat (i mod 3) := (board ! nat (i mod 3))[nat (j mod 3) := player board]]))"
proof -
  have l: "length board = 3" using assms by (simp add: is_board_def)
  show ?thesis
  proof (cases "- 3 \<le> i \<and> i \<le> 2")
    case False
    then show ?thesis by (auto simp: result_def getitem_def index3 [OF l])
  next
    case True
    have "0 \<le> i mod 3 \<and> i mod 3 < 3" by simp
    then have "nat (i mod 3) < 3" by linarith
    then have r: "length (board ! nat (i mod 3)) = 3" using assms by (rule is_board_row [rotated])
    show ?thesis using True
      by (auto simp: result_def getitem_def setitem_def index3 [OF l] index3 [OF r])
  qed
qed

theorem result_raises_or_marks_witness:
  "is_board initial_state \<and>
   result initial_state (1, - 2) =
     Inr [[EMPTY, EMPTY, EMPTY], [EMPTY, X, EMPTY], [EMPTY, EMPTY, EMPTY]] \<and>
   result [[EMPTY, EMPTY, EMPTY], [EMPTY, X, EMPTY], [EMPTY, EMPTY, EMPTY]] (1, 1) =
     Inl InvalidAction \<and>
   result initial_state (0, 3) = Inl IndexError"
  using result_raises_or_marks [OF is_board_initial_state, of 1 "- 2"]
    result_raises_or_marks [of "[[EMPTY, EMPTY, EMPTY], [EMPTY, X, EMPTY], [EMPTY, EMPTY, EMPTY]]" 1 1]
    result_raises_or_marks [OF is_board_initial_state, of 0 3]
  by (simp add: is_board_def initial_state_def player_def count_def)

text \<open>
  C3 as stated fails: the coordinates \<open>(-1, -1)\<close> are outside \<open>0 .. 2\<close>, and \<^verbatim>\<open>result\<close>
  returns a board with the last cell marked.
\<close>

theorem result_negative_coordinates: "result initial_state (- 1, - 1) = Inr [[EMPTY, EMPTY, EMPTY], [EMPTY, EMPTY, EMPTY], [EMPTY, EMPTY, X]]
   \<and> result initial_state (- 1, - 1) \<noteq> Inl InvalidAction"
  by (simp add: result_def initial_state_def getitem_def setitem_def index_def player_def count_def)

subsection \<open>Whose turn it is\<close>

text \<open>
  C7, as the code has it.  For every legal action, \<^verbatim>\<open>result\<close> succeeds, and the player to
  move on the new board differs from the player to move on the old one exactly when the
  old board has as many \<open>X\<close> as \<open>O\<close>, or one \<open>X\<close> more: the boards of a game.  On every
  other board \<^verbatim>\<open>player\<close> answers \<open>O\<close> before and after.
\<close>

theorem player_alternates_iff_balanced:
  assumes "a \<in> set (actions board)"
  shows "\<exists>child. result board a = Inr child \<and> (player child \<noteq> player board \<longleftrightarrow> count board = 0 \<or> count board = 1)"
proof -
  from assms obtain i j where a: "a = (int i, int j)" and ij: "i < length board" "j < length (board ! i)" "board ! i ! j = EMPTY"
    by (auto simp: actions_iff)
  have r: "result board a = Inr (board[i := (board ! i)[j := player board]])"
    using a ij by (simp add: result_legal)
  have "count (board[i := (board ! i)[j := player board]]) = count board + (if player board = X then 1 else - 1)"
    using ij by (simp add: count_update player_def)
  then show ?thesis using r by (auto simp: player_def)
qed

theorem player_alternates_iff_balanced_witness:
  "(1, 1) \<in> set (actions initial_state) \<and>
   (\<exists>child. result initial_state (1, 1) = Inr child \<and>
      (player child \<noteq> player initial_state
         \<longleftrightarrow> count initial_state = 0 \<or> count initial_state = 1)) \<and>
   count initial_state = 0"
  using player_alternates_iff_balanced [of "(1, 1)" initial_state]
  by (simp add: actions_def initial_state_def count_def)

text \<open>
  C7 as stated, for all boards, fails: on a board with two \<open>X\<close> and no \<open>O\<close> it is \<open>O\<close>'s
  turn before and after the legal move \<open>(0, 2)\<close>.
\<close>

theorem player_stays_on_unbalanced_board:
  "(0, 2) \<in> set (actions [[X, X, EMPTY], [EMPTY, EMPTY, EMPTY], [EMPTY, EMPTY, EMPTY]]) \<and>
   result [[X, X, EMPTY], [EMPTY, EMPTY, EMPTY], [EMPTY, EMPTY, EMPTY]] (0, 2)
     = Inr [[X, X, O'], [EMPTY, EMPTY, EMPTY], [EMPTY, EMPTY, EMPTY]] \<and>
   player [[X, X, O'], [EMPTY, EMPTY, EMPTY], [EMPTY, EMPTY, EMPTY]]
     = player [[X, X, EMPTY], [EMPTY, EMPTY, EMPTY], [EMPTY, EMPTY, EMPTY]]"
  by (simp add: actions_def result_def getitem_def setitem_def index_def player_def count_def)

subsection \<open>Winner, utility and the end of the game\<close>

text \<open>
  C6.  On every board that \<^verbatim>\<open>terminal\<close> reports as over, \<^verbatim>\<open>winner\<close> and \<^verbatim>\<open>utility\<close> return,
  and agree: the winner is \<open>X\<close> exactly when the utility is \<open>1\<close>, \<open>O\<close> exactly when it is
  \<open>-1\<close>, and there is none exactly when it is \<open>0\<close>.
\<close>

theorem winner_utility_agree:
  assumes "terminal board = Inr t" "truthy t"
  shows "\<exists>w u. winner board = Inr w \<and> utility board = Inr u
           \<and> (w = X \<longleftrightarrow> u = 1) \<and> (w = O' \<longleftrightarrow> u = - 1) \<and> (w = EMPTY \<longleftrightarrow> u = 0)"
proof -
  from assms obtain w where w: "winner board = Inr w"
    by (auto simp: terminal_def split: sum.splits)
  then show ?thesis by (cases w) (simp_all add: utility_def)
qed

theorem winner_utility_agree_witness:
  "terminal [[X, X, X], [O', O', EMPTY], [EMPTY, EMPTY, EMPTY]] = Inr (Mark X) \<and>
   truthy (Mark X) \<and>
   (\<exists>w u. winner [[X, X, X], [O', O', EMPTY], [EMPTY, EMPTY, EMPTY]] = Inr w \<and>
      utility [[X, X, X], [O', O', EMPTY], [EMPTY, EMPTY, EMPTY]] = Inr u \<and>
      (w = X \<longleftrightarrow> u = 1) \<and> (w = O' \<longleftrightarrow> u = - 1) \<and> (w = EMPTY \<longleftrightarrow> u = 0))"
  using winner_utility_agree [of "[[X, X, X], [O', O', EMPTY], [EMPTY, EMPTY, EMPTY]]" "Mark X"]
  by (simp add: terminal_def winner_3x3 three_def)

text \<open>
  C8.  The docstring of \<^verbatim>\<open>terminal\<close> promises \<^verbatim>\<open>True\<close> when the game is over.  On a board
  with a winner the code returns the winner's mark instead, here the string \<^verbatim>\<open>"X"\<close>.
  (The value it returns is true as a condition exactly when the claim says so:
  \<open>terminal_truthy\<close>.)
\<close>

theorem terminal_returns_mark: "terminal [[X, X, X], [O', O', EMPTY], [EMPTY, EMPTY, EMPTY]] = Inr (Mark X)"
  by (simp add: terminal_def winner_3x3 three_def)

text \<open>
  C10.  On every board \<^verbatim>\<open>winner\<close> and \<^verbatim>\<open>utility\<close> return, terminal or not.  Where no line
  is complete the utility is \<open>0\<close>, and the base case of \<^verbatim>\<open>maxValue\<close> and \<^verbatim>\<open>minValue\<close>,
  taken on such a board when the depth budget is used up, returns \<open>(0, None)\<close>.
\<close>

theorem utility_total:
  assumes "is_board board"
  shows "\<exists>w. winner board = Inr w
    \<and> utility board = Inr (if w = X then 1 else if w = O' then - 1 else 0)
    \<and> (w = EMPTY \<longrightarrow> utility board = Inr 0
          \<and> (depth < 0 \<longrightarrow>
                maxValue shuffle board depth alpha beta rng = Inr ((Fin 0, None), rng)
                \<and> minValue shuffle board depth alpha beta rng = Inr ((Fin 0, None), rng)))"
proof -
  from winner_board [OF assms] obtain w where "winner board = Inr w" ..
  then show ?thesis by (auto simp: maxValue.simps minValue.simps utility_def leaf_def)
qed

theorem utility_total_witness:
  "is_board initial_state \<and> winner initial_state = Inr EMPTY \<and>
   utility initial_state = Inr 0 \<and> terminal initial_state = Inr (Bool False) \<and>
   maxValue (\<lambda>rng xs. (xs, rng)) initial_state (- 1) NegInf PosInf () = Inr ((Fin 0, None), ()) \<and>
   minValue (\<lambda>rng xs. (xs, rng)) initial_state (- 1) NegInf PosInf () = Inr ((Fin 0, None), ())"
  using utility_total [OF is_board_initial_state, of "- 1" "\<lambda>rng xs. (xs, rng)" NegInf PosInf "()"]
    terminal_initial_state is_board_initial_state
  by (simp add: initial_state_def winner_3x3 three_def)

section \<open>The search entry point on a finished game\<close>

text \<open>
  C5.  On every board that \<^verbatim>\<open>terminal\<close> reports as over, \<^verbatim>\<open>minimax\<close> returns \<^verbatim>\<open>None\<close>, which
  is no action, and leaves the random source as it was.
\<close>

theorem minimax_terminal_None:
  assumes "terminal board = Inr t" "truthy t"
  shows "minimax shuffle board rng = Inr (None, rng)"
proof -
  from assms obtain w where w: "winner board = Inr w"
    by (auto simp: terminal_def split: sum.splits)
  have ne: "board \<noteq> initial_state" using assms terminal_initial_state by auto
  have l: "leaf board rng = Inr ((Fin (if w = X then 1 else if w = O' then - 1 else 0), None), rng)"
    using w by (simp add: leaf_def utility_def)
  show ?thesis using assms ne l
    by (simp add: maxValue.simps minValue.simps minimax_def ACCURACY_def)
qed

theorem minimax_terminal_None_witness:
  "terminal [[X, X, X], [O', O', EMPTY], [EMPTY, EMPTY, EMPTY]] = Inr (Mark X) \<and>
   truthy (Mark X) \<and>
   minimax (\<lambda>rng xs. (rev xs, rng)) [[X, X, X], [O', O', EMPTY], [EMPTY, EMPTY, EMPTY]] (0::nat)
     = Inr (None, 0)"
  using minimax_terminal_None [of "[[X, X, X], [O', O', EMPTY], [EMPTY, EMPTY, EMPTY]]" "Mark X"
      "\<lambda>rng xs. (rev xs, rng)" "0::nat"]
  by (simp add: terminal_def winner_3x3 three_def)

section \<open>Soundness of the search\<close>

subsection \<open>The iterations over the actions\<close>

lemma maxLoop_sound:
  fixes t :: "action \<Rightarrow> score"
  assumes children: "\<And>a al be r. a \<in> set as \<Longrightarrow> al < be \<Longrightarrow>
      \<exists>child s act r'. result b a = Inr child
        \<and> minValue sh child (d - 1) al be r = Inr ((s, act), r') \<and> fits al be (t a) s"
    and "v \<le> alpha" "alpha < beta"
  shows "\<exists>v' best' r'. maxLoop sh b d alpha beta v best as r = Inr ((v', best'), r')
      \<and> v \<le> v'
      \<and> (v' < beta \<longrightarrow> (\<forall>a\<in>set as. t a \<le> v'))
      \<and> (v < v' \<longrightarrow> (\<exists>a\<in>set as. best' = Some a \<and> (alpha < v' \<and> v' < beta \<longrightarrow> t a = v')))
      \<and> (v' = v \<longrightarrow> best' = best)
      \<and> (beta \<le> v' \<longrightarrow> (\<exists>a\<in>set as. v' \<le> t a))"
  using assms
proof (induction as arbitrary: alpha v best r)
  case Nil
  then show ?case by auto
next
  case (Cons a rest)
  from Cons.prems(1) [of a alpha beta r] Cons.prems(3)
  obtain child s act r1 where c: "result b a = Inr child"
    and m: "minValue sh child (d - 1) alpha beta r = Inr ((s, act), r1)"
    and f: "fits alpha beta (t a) s"
    by auto
  define v1 where "v1 = (if v < s then s else v)"
  define best1 where "best1 = (if v < s then Some a else best)"
  define alpha1 where "alpha1 = max alpha v1"
  have step: "maxLoop sh b d alpha beta v best (a # rest) r =
      (if beta \<le> alpha1 then Inr ((v1, best1), r1)
       else maxLoop sh b d alpha1 beta v1 best1 rest r1)"
    using c m by (simp add: v1_def best1_def alpha1_def Let_def)
  show ?case
  proof (cases "beta \<le> alpha1")
    case True
    with Cons.prems(2,3) have "beta \<le> v1" "v1 = s" "v < s"
      by (auto simp: alpha1_def v1_def max_def split: if_splits)
    moreover from this f have "s \<le> t a" by (auto simp: fits_def)
    ultimately show ?thesis
      using True step by (auto simp: best1_def)
  next
    case False
    then have w: "v1 \<le> alpha1" "alpha1 < beta"
      by (auto simp: alpha1_def not_le)
    have ch: "\<And>a al be r. a \<in> set rest \<Longrightarrow> al < be \<Longrightarrow>
      \<exists>child s act r'. result b a = Inr child
        \<and> minValue sh child (d - 1) al be r = Inr ((s, act), r') \<and> fits al be (t a) s"
      using Cons.prems(1) by simp
    from Cons.IH [OF ch w, of best1 r1]
    obtain v' best' r' where
      run: "maxLoop sh b d alpha1 beta v1 best1 rest r1 = Inr ((v', best'), r')"
      and mono: "v1 \<le> v'"
      and ub: "v' < beta \<longrightarrow> (\<forall>a\<in>set rest. t a \<le> v')"
      and pick: "v1 < v' \<longrightarrow> (\<exists>a\<in>set rest. best' = Some a \<and> (alpha1 < v' \<and> v' < beta \<longrightarrow> t a = v'))"
      and keep: "v' = v1 \<longrightarrow> best' = best1"
      and lb: "beta \<le> v' \<longrightarrow> (\<exists>a\<in>set rest. v' \<le> t a)"
      by blast
    have vv1: "v \<le> v1" by (auto simp: v1_def)
    have sv1: "s \<le> v1" by (auto simp: v1_def not_less)
    have ta: "v' < beta \<Longrightarrow> t a \<le> v'"
    proof -
      assume "v' < beta"
      with sv1 mono have "s < beta" by simp
      then have "t a \<le> s" using f by (cases "s \<le> alpha") (auto simp: fits_def)
      then show ?thesis using sv1 mono by simp
    qed
    have p1: "v < v' \<Longrightarrow> \<exists>x\<in>set (a # rest). best' = Some x \<and> (alpha < v' \<and> v' < beta \<longrightarrow> t x = v')"
    proof -
      assume lt: "v < v'"
      show ?thesis
      proof (cases "v1 < v'")
        case True
        with pick obtain x where x: "x \<in> set rest" "best' = Some x" "alpha1 < v' \<and> v' < beta \<longrightarrow> t x = v'"
          by blast
        have "alpha < v' \<Longrightarrow> alpha1 < v'" using True by (simp add: alpha1_def)
        with x show ?thesis by auto
      next
        case False
        with mono have e: "v' = v1" by simp
        with lt have "v < s" "v1 = s" by (auto simp: v1_def split: if_splits)
        with keep e have "best' = Some a" by (simp add: best1_def)
        moreover have "alpha < v' \<and> v' < beta \<longrightarrow> t a = v'"
          using f e \<open>v1 = s\<close> by (auto simp: fits_def)
        ultimately show ?thesis by simp
      qed
    qed
    have k1: "v' = v \<Longrightarrow> best' = best"
    proof -
      assume "v' = v"
      with mono vv1 have "v1 = v" "v' = v1" by simp_all
      then have "\<not> v < s" by (auto simp: v1_def split: if_splits)
      then show ?thesis using keep \<open>v' = v1\<close> by (simp add: best1_def)
    qed
    show ?thesis
      using False step run mono vv1 ub ta lb p1 k1
      by (auto intro: order_trans)
  qed
qed


lemma minLoop_sound:
  fixes t :: "action \<Rightarrow> score"
  assumes children: "\<And>a al be r. a \<in> set as \<Longrightarrow> al < be \<Longrightarrow>
      \<exists>child s act r'. result b a = Inr child
        \<and> maxValue sh child (d - 1) al be r = Inr ((s, act), r') \<and> fits al be (t a) s"
    and "beta \<le> v" "alpha < beta"
  shows "\<exists>v' best' r'. minLoop sh b d alpha beta v best as r = Inr ((v', best'), r')
      \<and> v' \<le> v
      \<and> (alpha < v' \<longrightarrow> (\<forall>a\<in>set as. v' \<le> t a))
      \<and> (v' < v \<longrightarrow> (\<exists>a\<in>set as. best' = Some a \<and> (alpha < v' \<and> v' < beta \<longrightarrow> t a = v')))
      \<and> (v' = v \<longrightarrow> best' = best)
      \<and> (v' \<le> alpha \<longrightarrow> (\<exists>a\<in>set as. t a \<le> v'))"
  using assms
proof (induction as arbitrary: beta v best r)
  case Nil
  then show ?case by auto
next
  case (Cons a rest)
  from Cons.prems(1) [of a alpha beta r] Cons.prems(3)
  obtain child s act r1 where c: "result b a = Inr child"
    and m: "maxValue sh child (d - 1) alpha beta r = Inr ((s, act), r1)"
    and f: "fits alpha beta (t a) s"
    by auto
  define v1 where "v1 = (if s < v then s else v)"
  define best1 where "best1 = (if s < v then Some a else best)"
  define beta1 where "beta1 = min beta v1"
  have step: "minLoop sh b d alpha beta v best (a # rest) r =
      (if beta1 \<le> alpha then Inr ((v1, best1), r1)
       else minLoop sh b d alpha beta1 v1 best1 rest r1)"
    using c m by (simp add: v1_def best1_def beta1_def Let_def)
  show ?case
  proof (cases "beta1 \<le> alpha")
    case True
    with Cons.prems(2,3) have "v1 \<le> alpha" "v1 = s" "s < v"
      by (auto simp: beta1_def v1_def min_def split: if_splits)
    moreover from this f have "t a \<le> s" by (auto simp: fits_def)
    ultimately show ?thesis
      using True step by (auto simp: best1_def)
  next
    case False
    then have w: "beta1 \<le> v1" "alpha < beta1"
      by (auto simp: beta1_def not_le)
    have ch: "\<And>a al be r. a \<in> set rest \<Longrightarrow> al < be \<Longrightarrow>
      \<exists>child s act r'. result b a = Inr child
        \<and> maxValue sh child (d - 1) al be r = Inr ((s, act), r') \<and> fits al be (t a) s"
      using Cons.prems(1) by simp
    from Cons.IH [OF ch w, of best1 r1]
    obtain v' best' r' where
      run: "minLoop sh b d alpha beta1 v1 best1 rest r1 = Inr ((v', best'), r')"
      and mono: "v' \<le> v1"
      and lb: "alpha < v' \<longrightarrow> (\<forall>a\<in>set rest. v' \<le> t a)"
      and pick: "v' < v1 \<longrightarrow> (\<exists>a\<in>set rest. best' = Some a \<and> (alpha < v' \<and> v' < beta1 \<longrightarrow> t a = v'))"
      and keep: "v' = v1 \<longrightarrow> best' = best1"
      and ub: "v' \<le> alpha \<longrightarrow> (\<exists>a\<in>set rest. t a \<le> v')"
      by blast
    have vv1: "v1 \<le> v" by (auto simp: v1_def)
    have sv1: "v1 \<le> s" by (auto simp: v1_def not_less)
    have ta: "alpha < v' \<Longrightarrow> v' \<le> t a"
    proof -
      assume "alpha < v'"
      with sv1 mono have "alpha < s" by simp
      then have "s \<le> t a" using f by (cases "beta \<le> s") (auto simp: fits_def not_le)
      then show ?thesis using sv1 mono by simp
    qed
    have p1: "v' < v \<Longrightarrow> \<exists>x\<in>set (a # rest). best' = Some x \<and> (alpha < v' \<and> v' < beta \<longrightarrow> t x = v')"
    proof -
      assume lt: "v' < v"
      show ?thesis
      proof (cases "v' < v1")
        case True
        with pick obtain x where x: "x \<in> set rest" "best' = Some x" "alpha < v' \<and> v' < beta1 \<longrightarrow> t x = v'"
          by blast
        have "v' < beta \<Longrightarrow> v' < beta1" using True by (simp add: beta1_def)
        with x show ?thesis by auto
      next
        case False
        with mono have e: "v' = v1" by simp
        with lt have "s < v" "v1 = s" by (auto simp: v1_def split: if_splits)
        with keep e have "best' = Some a" by (simp add: best1_def)
        moreover have "alpha < v' \<and> v' < beta \<longrightarrow> t a = v'"
          using f e \<open>v1 = s\<close> by (auto simp: fits_def)
        ultimately show ?thesis by simp
      qed
    qed
    have k1: "v' = v \<Longrightarrow> best' = best"
    proof -
      assume "v' = v"
      with mono vv1 have "v1 = v" "v' = v1" by simp_all
      then have "\<not> s < v" by (auto simp: v1_def split: if_splits)
      then show ?thesis using keep \<open>v' = v1\<close> by (simp add: best1_def)
    qed
    show ?thesis
      using False step run mono vv1 ub ta lb p1 k1
      by (auto intro: order_trans)
  qed
qed



subsection \<open>Values of boards\<close>

lemma legal_result:
  assumes "a \<in> set (actions board)"
  obtains i j where "a = (int i, int j)" "i < length board" "j < length (board ! i)"
    "board ! i ! j = EMPTY"
    "result board a = Inr (board[i := (board ! i)[j := player board]])"
  using assms by (auto simp: actions_iff result_legal)

lemma successors_iff:
  "child \<in> set (successors board) \<longleftrightarrow> (\<exists>a\<in>set (actions board). result board a = Inr child)"
  by (force simp: successors_def split: sum.splits)

lemma not_game_over:
  assumes "\<not> game_over board"
  shows "\<exists>t. terminal board = Inr t \<and> \<not> truthy t" and "actions board \<noteq> []" and "successors board \<noteq> []"
proof -
  show t: "\<exists>t. terminal board = Inr t \<and> \<not> truthy t"
    using assms by (auto simp: game_over_def split: sum.splits)
  then show a: "actions board \<noteq> []"
    by (auto simp: terminal_def split: sum.splits if_splits)
  then obtain x where x: "x \<in> set (actions board)" by (cases "actions board") auto
  then obtain c where "result board x = Inr c" by (auto elim: legal_result)
  with x have "c \<in> set (successors board)" by (auto simp: successors_iff)
  then show "successors board \<noteq> []" by auto
qed

lemma max_value_ge:
  assumes "\<not> game_over b" "a \<in> set (actions b)" "result b a = Inr c"
  shows "min_value c \<le> max_value b"
proof -
  have "c \<in> set (successors b)" using assms(2,3) by (auto simp: successors_iff)
  then have "min_value c \<le> Max (set (map min_value (successors b)))" by simp
  then show ?thesis using assms(1) by (simp add: max_value.simps)
qed

lemma max_value_attained:
  assumes "\<not> game_over b"
  shows "\<exists>a\<in>set (actions b). \<exists>c. result b a = Inr c \<and> min_value c = max_value b"
proof -
  have "set (map min_value (successors b)) \<noteq> {}" using not_game_over(3) [OF assms] by simp
  then have "Max (set (map min_value (successors b))) \<in> set (map min_value (successors b))"
    by (intro Max_in) simp_all
  then obtain c where "c \<in> set (successors b)" "min_value c = max_value b"
    using assms by (auto simp: max_value.simps)
  then show ?thesis by (auto simp: successors_iff)
qed

lemma min_value_le:
  assumes "\<not> game_over b" "a \<in> set (actions b)" "result b a = Inr c"
  shows "min_value b \<le> max_value c"
proof -
  have "c \<in> set (successors b)" using assms(2,3) by (auto simp: successors_iff)
  then have "Min (set (map max_value (successors b))) \<le> max_value c" by simp
  then show ?thesis using assms(1) by (simp add: min_value.simps)
qed

lemma min_value_attained:
  assumes "\<not> game_over b"
  shows "\<exists>a\<in>set (actions b). \<exists>c. result b a = Inr c \<and> max_value c = min_value b"
proof -
  have "set (map max_value (successors b)) \<noteq> {}" using not_game_over(3) [OF assms] by simp
  then have "Min (set (map max_value (successors b))) \<in> set (map max_value (successors b))"
    by (intro Min_in) simp_all
  then obtain c where "c \<in> set (successors b)" "max_value c = min_value b"
    using assms by (auto simp: min_value.simps)
  then show ?thesis by (auto simp: successors_iff)
qed

lemma is_board_update:
  assumes "is_board board" "i < length board" "j < length (board ! i)"
  shows "is_board (board[i := (board ! i)[j := c]])"
  using assms by (auto simp: is_board_def list_all_length nth_list_update)

lemma is_board_result:
  assumes "is_board board" "a \<in> set (actions board)"
  shows "\<exists>child. result board a = Inr child \<and> is_board child \<and> Suc (empties child) = empties board"
proof -
  from assms(2) obtain i j where ij: "i < length board" "j < length (board ! i)"
    and r: "result board a = Inr (board[i := (board ! i)[j := player board]])"
    by (auto elim: legal_result)
  show ?thesis using r is_board_update [OF assms(1) ij] result_empties [OF r] by simp
qed

lemma Fin_le [simp]: "Fin a \<le> Fin b \<longleftrightarrow> a \<le> b"
  by simp

lemma Fin_less [simp]: "Fin a < Fin b \<longleftrightarrow> a < b"
  by (auto simp: less_score_def)

lemma NegInf_less [simp]: "NegInf < Fin a" "NegInf < PosInf" "Fin a < PosInf" "\<not> PosInf < s" "\<not> s < NegInf"
  by (cases s; simp add: less_score_def)+

lemma le_PosInf [simp]: "s \<le> PosInf"
  by (cases s) simp_all

lemma permutes_set: "permutes sh \<Longrightarrow> set (fst (sh r xs)) = set xs"
  unfolding permutes_def by (metis mset_eq_setD)

subsection \<open>maxValue and minValue\<close>

lemma leaf_board:
  assumes "is_board b"
  shows "leaf b r = Inr ((Fin (payoff b), None), r)"
proof -
  from winner_board [OF assms] obtain w where "winner b = Inr w" ..
  then show ?thesis by (simp add: leaf_def utility_def payoff_def)
qed

lemma terminal_board:
  assumes "is_board b"
  shows "\<exists>t. terminal b = Inr t \<and> truthy t = game_over b"
proof -
  from winner_board [OF assms] obtain w where "winner b = Inr w" ..
  then show ?thesis by (auto simp: terminal_def game_over_def)
qed

lemma fits_exact: "fits alpha beta t t"
  by (simp add: fits_def)

lemma search_sound:
  assumes perm: "permutes sh"
  shows "is_board b \<Longrightarrow> int (empties b) \<le> d \<Longrightarrow> alpha < beta \<Longrightarrow>
     (\<exists>s act r'. maxValue sh b d alpha beta r = Inr ((s, act), r')
        \<and> fits alpha beta (Fin (max_value b)) s
        \<and> (\<not> game_over b \<longrightarrow> alpha < s \<longrightarrow> s < beta \<longrightarrow>
             (\<exists>a\<in>set (actions b). act = Some a
                \<and> (\<exists>child. result b a = Inr child \<and> min_value child = max_value b))))
   \<and> (\<exists>s act r'. minValue sh b d alpha beta r = Inr ((s, act), r')
        \<and> fits alpha beta (Fin (min_value b)) s
        \<and> (\<not> game_over b \<longrightarrow> alpha < s \<longrightarrow> s < beta \<longrightarrow>
             (\<exists>a\<in>set (actions b). act = Some a
                \<and> (\<exists>child. result b a = Inr child \<and> max_value child = min_value b))))"
proof (induction "empties b" arbitrary: b d alpha beta r rule: less_induct)
  case less
  note board = \<open>is_board b\<close> and window = \<open>alpha < beta\<close>
  from less.prems(2) have d0: "\<not> d < 0" by simp
  from terminal_board [OF board] obtain t where t: "terminal b = Inr t" "truthy t = game_over b"
    by blast
  show ?case
  proof (cases "game_over b")
    case True
    then have "max_value b = payoff b" "min_value b = payoff b"
      by (simp_all add: max_value.simps min_value.simps)
    then show ?thesis
      using True t d0 by (simp add: maxValue.simps minValue.simps fits_exact leaf_board [OF board])
  next
    case False
    define as where "as = fst (sh r (actions b))"
    define r0 where "r0 = snd (sh r (actions b))"
    have as: "set as = set (actions b)"
      unfolding as_def using perm by (rule permutes_set)
    have child: "\<exists>c. result b a = Inr c \<and> is_board c \<and> empties c < empties b
        \<and> int (empties c) \<le> d - 1" if "a \<in> set as" for a
      using is_board_result [OF board, of a] that as less.prems(2) by auto
    define tmin where "tmin a = (case result b a of Inl e \<Rightarrow> NegInf | Inr c \<Rightarrow> Fin (min_value c))" for a
    define tmax where "tmax a = (case result b a of Inl e \<Rightarrow> NegInf | Inr c \<Rightarrow> Fin (max_value c))" for a
    have cmin: "\<exists>c s act r'. result b a = Inr c
        \<and> minValue sh c (d - 1) al be q = Inr ((s, act), r') \<and> fits al be (tmin a) s"
      if "a \<in> set as" "al < be" for a al be q
    proof -
      from child [OF that(1)] obtain c where c: "result b a = Inr c" "is_board c"
        "empties c < empties b" "int (empties c) \<le> d - 1" by blast
      from less.hyps [OF c(3) c(2) c(4) that(2), of q] c(1) show ?thesis
        by (auto simp: tmin_def)
    qed
    have cmax: "\<exists>c s act r'. result b a = Inr c
        \<and> maxValue sh c (d - 1) al be q = Inr ((s, act), r') \<and> fits al be (tmax a) s"
      if "a \<in> set as" "al < be" for a al be q
    proof -
      from child [OF that(1)] obtain c where c: "result b a = Inr c" "is_board c"
        "empties c < empties b" "int (empties c) \<le> d - 1" by blast
      from less.hyps [OF c(3) c(2) c(4) that(2), of q] c(1) show ?thesis
        by (auto simp: tmax_def)
    qed
    have tmin_le: "tmin a \<le> Fin (max_value b)" if "a \<in> set as" for a
      using child [OF that] max_value_ge [OF False, of a] that as by (auto simp: tmin_def)
    have tmax_ge: "Fin (min_value b) \<le> tmax a" if "a \<in> set as" for a
      using child [OF that] min_value_le [OF False, of a] that as by (auto simp: tmax_def)
    from max_value_attained [OF False] obtain a1 where
      a1: "a1 \<in> set as" "tmin a1 = Fin (max_value b)"
      using as by (auto simp: tmin_def)
    from min_value_attained [OF False] obtain a2 where
      a2: "a2 \<in> set as" "tmax a2 = Fin (min_value b)"
      using as by (auto simp: tmax_def)
    have tmin_eq: "\<exists>c. result b a = Inr c \<and> min_value c = max_value b"
      if "a \<in> set as" "tmin a = Fin (max_value b)" for a
      using child [OF that(1)] that(2) by (auto simp: tmin_def)
    have tmax_eq: "\<exists>c. result b a = Inr c \<and> max_value c = min_value b"
      if "a \<in> set as" "tmax a = Fin (min_value b)" for a
      using child [OF that(1)] that(2) by (auto simp: tmax_def)
    have unfold_max: "maxValue sh b d alpha beta r = maxLoop sh b d alpha beta NegInf None as r0"
      using d0 t False by (simp add: maxValue.simps as_def r0_def case_prod_beta)
    have unfold_min: "minValue sh b d alpha beta r = minLoop sh b d alpha beta PosInf None as r0"
      using d0 t False by (simp add: minValue.simps as_def r0_def case_prod_beta)
    have "\<exists>s act r'. maxValue sh b d alpha beta r = Inr ((s, act), r')
        \<and> fits alpha beta (Fin (max_value b)) s
        \<and> (alpha < s \<longrightarrow> s < beta \<longrightarrow>
             (\<exists>a\<in>set (actions b). act = Some a
                \<and> (\<exists>child. result b a = Inr child \<and> min_value child = max_value b)))"
    proof -
      from maxLoop_sound [where as = as and b = b and sh = sh and d = d and t = tmin and v = NegInf
          and alpha = alpha and beta = beta and best = None and r = r0, OF cmin _ window]
      obtain v' best' r' where
        run: "maxLoop sh b d alpha beta NegInf None as r0 = Inr ((v', best'), r')"
        and ub: "v' < beta \<longrightarrow> (\<forall>a\<in>set as. tmin a \<le> v')"
        and pick: "NegInf < v' \<longrightarrow> (\<exists>a\<in>set as. best' = Some a \<and> (alpha < v' \<and> v' < beta \<longrightarrow> tmin a = v'))"
        and lb: "beta \<le> v' \<longrightarrow> (\<exists>a\<in>set as. v' \<le> tmin a)"
        by auto
      have f1: "Fin (max_value b) \<le> v'" if "v' < beta"
        using ub that a1 by auto
      have f2: "v' \<le> Fin (max_value b)" if "beta \<le> v'"
        using lb that tmin_le by (auto intro: order_trans)
      have f3: "\<exists>a\<in>set as. best' = Some a \<and> tmin a = v'" if "alpha < v'" "v' < beta"
      proof -
        have "NegInf < v'" using that(1) by (cases alpha; cases v'; simp add: less_score_def)
        with pick that show ?thesis by auto
      qed
      have f4: "v' = Fin (max_value b)" if "alpha < v'" "v' < beta"
        using f3 [OF that] f1 [OF that(2)] tmin_le by (auto intro: antisym)
      have "fits alpha beta (Fin (max_value b)) v'"
        unfolding fits_def using f1 f2 f4 window by auto
      moreover have "\<exists>a\<in>set (actions b). best' = Some a
          \<and> (\<exists>child. result b a = Inr child \<and> min_value child = max_value b)"
        if "alpha < v'" "v' < beta"
        using f3 [OF that] f4 [OF that] tmin_eq as by auto
      ultimately show ?thesis using run unfold_max by auto
    qed
    moreover have "\<exists>s act r'. minValue sh b d alpha beta r = Inr ((s, act), r')
        \<and> fits alpha beta (Fin (min_value b)) s
        \<and> (alpha < s \<longrightarrow> s < beta \<longrightarrow>
             (\<exists>a\<in>set (actions b). act = Some a
                \<and> (\<exists>child. result b a = Inr child \<and> max_value child = min_value b)))"
    proof -
      from minLoop_sound [where as = as and b = b and sh = sh and d = d and t = tmax and v = PosInf
          and alpha = alpha and beta = beta and best = None and r = r0, OF cmax _ window]
      obtain v' best' r' where
        run: "minLoop sh b d alpha beta PosInf None as r0 = Inr ((v', best'), r')"
        and lb: "alpha < v' \<longrightarrow> (\<forall>a\<in>set as. v' \<le> tmax a)"
        and pick: "v' < PosInf \<longrightarrow> (\<exists>a\<in>set as. best' = Some a \<and> (alpha < v' \<and> v' < beta \<longrightarrow> tmax a = v'))"
        and ub: "v' \<le> alpha \<longrightarrow> (\<exists>a\<in>set as. tmax a \<le> v')"
        by auto
      have f1: "v' \<le> Fin (min_value b)" if "alpha < v'"
        using lb that a2 by auto
      have f2: "Fin (min_value b) \<le> v'" if "v' \<le> alpha"
        using ub that tmax_ge by (auto intro: order_trans)
      have f3: "\<exists>a\<in>set as. best' = Some a \<and> tmax a = v'" if "alpha < v'" "v' < beta"
      proof -
        have "v' < PosInf" using that(2) by (cases beta; cases v'; simp add: less_score_def)
        with pick that show ?thesis by auto
      qed
      have f4: "v' = Fin (min_value b)" if "alpha < v'" "v' < beta"
        using f3 [OF that] f1 [OF that(1)] tmax_ge by (auto intro: antisym)
      have "fits alpha beta (Fin (min_value b)) v'"
        unfolding fits_def using f1 f2 f4 window by auto
      moreover have "\<exists>a\<in>set (actions b). best' = Some a
          \<and> (\<exists>child. result b a = Inr child \<and> max_value child = min_value b)"
        if "alpha < v'" "v' < beta"
        using f3 [OF that] f4 [OF that] tmax_eq as by auto
      ultimately show ?thesis using run unfold_min by auto
    qed
    ultimately show ?thesis by blast
  qed
qed

subsection \<open>The search with pruning disabled\<close>

lemma maxLoop_unpruned_sound:
  fixes t :: "action \<Rightarrow> score"
  assumes "\<And>a al be r. a \<in> set as \<Longrightarrow>
      \<exists>child act r'. result b a = Inr child
        \<and> minValue_unpruned sh child (d - 1) al be r = Inr ((t a, act), r')"
  shows "\<exists>v' best' r'. maxLoop_unpruned sh b d alpha beta v best as r = Inr ((v', best'), r')
      \<and> v \<le> v' \<and> (\<forall>a\<in>set as. t a \<le> v') \<and> (v' = v \<or> (\<exists>a\<in>set as. t a = v'))"
  using assms
proof (induction as arbitrary: alpha v best r)
  case Nil
  then show ?case by simp
next
  case (Cons a rest)
  from Cons.prems [of a alpha beta r]
  obtain child act r1 where c: "result b a = Inr child"
    and m: "minValue_unpruned sh child (d - 1) alpha beta r = Inr ((t a, act), r1)"
    by auto
  define v1 where "v1 = (if v < t a then t a else v)"
  define best1 where "best1 = (if v < t a then Some a else best)"
  have step: "maxLoop_unpruned sh b d alpha beta v best (a # rest) r =
      maxLoop_unpruned sh b d (max alpha v1) beta v1 best1 rest r1"
    using c m by (simp add: v1_def best1_def Let_def)
  have ch: "\<And>a al be r. a \<in> set rest \<Longrightarrow>
      \<exists>child act r'. result b a = Inr child
        \<and> minValue_unpruned sh child (d - 1) al be r = Inr ((t a, act), r')"
    using Cons.prems by simp
  from Cons.IH [OF ch, of "max alpha v1" v1 best1 r1]
  obtain v' best' r' where
    run: "maxLoop_unpruned sh b d (max alpha v1) beta v1 best1 rest r1 = Inr ((v', best'), r')"
    and mono: "v1 \<le> v'" and ub: "\<forall>a\<in>set rest. t a \<le> v'"
    and hit: "v' = v1 \<or> (\<exists>a\<in>set rest. t a = v')"
    by blast
  have "v \<le> v1" "t a \<le> v1" "v1 = v \<or> v1 = t a"
    by (auto simp: v1_def not_less)
  then show ?case
    using step run mono ub hit by (auto intro: order_trans)
qed

lemma minLoop_unpruned_sound:
  fixes t :: "action \<Rightarrow> score"
  assumes "\<And>a al be r. a \<in> set as \<Longrightarrow>
      \<exists>child act r'. result b a = Inr child
        \<and> maxValue_unpruned sh child (d - 1) al be r = Inr ((t a, act), r')"
  shows "\<exists>v' best' r'. minLoop_unpruned sh b d alpha beta v best as r = Inr ((v', best'), r')
      \<and> v' \<le> v \<and> (\<forall>a\<in>set as. v' \<le> t a) \<and> (v' = v \<or> (\<exists>a\<in>set as. t a = v'))"
  using assms
proof (induction as arbitrary: beta v best r)
  case Nil
  then show ?case by simp
next
  case (Cons a rest)
  from Cons.prems [of a alpha beta r]
  obtain child act r1 where c: "result b a = Inr child"
    and m: "maxValue_unpruned sh child (d - 1) alpha beta r = Inr ((t a, act), r1)"
    by auto
  define v1 where "v1 = (if t a < v then t a else v)"
  define best1 where "best1 = (if t a < v then Some a else best)"
  have step: "minLoop_unpruned sh b d alpha beta v best (a # rest) r =
      minLoop_unpruned sh b d alpha (min beta v1) v1 best1 rest r1"
    using c m by (simp add: v1_def best1_def Let_def)
  have ch: "\<And>a al be r. a \<in> set rest \<Longrightarrow>
      \<exists>child act r'. result b a = Inr child
        \<and> maxValue_unpruned sh child (d - 1) al be r = Inr ((t a, act), r')"
    using Cons.prems by simp
  from Cons.IH [OF ch, of "min beta v1" v1 best1 r1]
  obtain v' best' r' where
    run: "minLoop_unpruned sh b d alpha (min beta v1) v1 best1 rest r1 = Inr ((v', best'), r')"
    and mono: "v' \<le> v1" and lb: "\<forall>a\<in>set rest. v' \<le> t a"
    and hit: "v' = v1 \<or> (\<exists>a\<in>set rest. t a = v')"
    by blast
  have "v1 \<le> v" "v1 \<le> t a" "v1 = v \<or> v1 = t a"
    by (auto simp: v1_def not_less)
  then show ?case
    using step run mono lb hit by (auto intro: order_trans)
qed

lemma unpruned_sound:
  assumes perm: "permutes sh"
  shows "is_board b \<Longrightarrow> int (empties b) \<le> d \<Longrightarrow>
     (\<exists>act r'. maxValue_unpruned sh b d alpha beta r = Inr ((Fin (max_value b), act), r'))
   \<and> (\<exists>act r'. minValue_unpruned sh b d alpha beta r = Inr ((Fin (min_value b), act), r'))"
proof (induction "empties b" arbitrary: b d alpha beta r rule: less_induct)
  case less
  note board = \<open>is_board b\<close>
  from less.prems(2) have d0: "\<not> d < 0" by simp
  from terminal_board [OF board] obtain t where t: "terminal b = Inr t" "truthy t = game_over b"
    by blast
  show ?case
  proof (cases "game_over b")
    case True
    then have "max_value b = payoff b" "min_value b = payoff b"
      by (simp_all add: max_value.simps min_value.simps)
    then show ?thesis
      using True t d0
      by (simp add: maxValue_unpruned.simps minValue_unpruned.simps leaf_board [OF board])
  next
    case False
    define as where "as = fst (sh r (actions b))"
    define r0 where "r0 = snd (sh r (actions b))"
    have as: "set as = set (actions b)"
      unfolding as_def using perm by (rule permutes_set)
    have child: "\<exists>c. result b a = Inr c \<and> is_board c \<and> empties c < empties b
        \<and> int (empties c) \<le> d - 1" if "a \<in> set as" for a
      using is_board_result [OF board, of a] that as less.prems(2) by auto
    define tmin where "tmin a = (case result b a of Inl e \<Rightarrow> NegInf | Inr c \<Rightarrow> Fin (min_value c))" for a
    define tmax where "tmax a = (case result b a of Inl e \<Rightarrow> NegInf | Inr c \<Rightarrow> Fin (max_value c))" for a
    have cmin: "\<exists>c act r'. result b a = Inr c
        \<and> minValue_unpruned sh c (d - 1) al be q = Inr ((tmin a, act), r')"
      if "a \<in> set as" for a al be q
    proof -
      from child [OF that] obtain c where c: "result b a = Inr c" "is_board c"
        "empties c < empties b" "int (empties c) \<le> d - 1" by blast
      from less.hyps [OF c(3) c(2) c(4), of al be q] c(1) show ?thesis
        by (auto simp: tmin_def)
    qed
    have cmax: "\<exists>c act r'. result b a = Inr c
        \<and> maxValue_unpruned sh c (d - 1) al be q = Inr ((tmax a, act), r')"
      if "a \<in> set as" for a al be q
    proof -
      from child [OF that] obtain c where c: "result b a = Inr c" "is_board c"
        "empties c < empties b" "int (empties c) \<le> d - 1" by blast
      from less.hyps [OF c(3) c(2) c(4), of al be q] c(1) show ?thesis
        by (auto simp: tmax_def)
    qed
    have tmin_le: "tmin a \<le> Fin (max_value b)" if "a \<in> set as" for a
      using child [OF that] max_value_ge [OF False, of a] that as by (auto simp: tmin_def)
    have tmax_ge: "Fin (min_value b) \<le> tmax a" if "a \<in> set as" for a
      using child [OF that] min_value_le [OF False, of a] that as by (auto simp: tmax_def)
    from max_value_attained [OF False] obtain a1 where
      a1: "a1 \<in> set as" "tmin a1 = Fin (max_value b)"
      using as by (auto simp: tmin_def)
    from min_value_attained [OF False] obtain a2 where
      a2: "a2 \<in> set as" "tmax a2 = Fin (min_value b)"
      using as by (auto simp: tmax_def)
    have unfold_max: "maxValue_unpruned sh b d alpha beta r
        = maxLoop_unpruned sh b d alpha beta NegInf None as r0"
      using d0 t False by (simp add: maxValue_unpruned.simps as_def r0_def case_prod_beta)
    have unfold_min: "minValue_unpruned sh b d alpha beta r
        = minLoop_unpruned sh b d alpha beta PosInf None as r0"
      using d0 t False by (simp add: minValue_unpruned.simps as_def r0_def case_prod_beta)
    have "\<exists>act r'. maxValue_unpruned sh b d alpha beta r = Inr ((Fin (max_value b), act), r')"
    proof -
      from maxLoop_unpruned_sound [where as = as and b = b and sh = sh and d = d and t = tmin
          and v = NegInf and alpha = alpha and beta = beta and best = None and r = r0, OF cmin]
      obtain v' best' r' where
        run: "maxLoop_unpruned sh b d alpha beta NegInf None as r0 = Inr ((v', best'), r')"
        and ub: "\<forall>a\<in>set as. tmin a \<le> v'"
        and hit: "v' = NegInf \<or> (\<exists>a\<in>set as. tmin a = v')"
        by auto
      have "Fin (max_value b) \<le> v'" using ub a1 by auto
      moreover from this have "v' \<noteq> NegInf" by auto
      with hit have "v' \<le> Fin (max_value b)" using tmin_le by auto
      ultimately have "v' = Fin (max_value b)" by (rule antisym [rotated])
      then show ?thesis using run unfold_max by auto
    qed
    moreover have "\<exists>act r'. minValue_unpruned sh b d alpha beta r = Inr ((Fin (min_value b), act), r')"
    proof -
      from minLoop_unpruned_sound [where as = as and b = b and sh = sh and d = d and t = tmax
          and v = PosInf and alpha = alpha and beta = beta and best = None and r = r0, OF cmax]
      obtain v' best' r' where
        run: "minLoop_unpruned sh b d alpha beta PosInf None as r0 = Inr ((v', best'), r')"
        and lb: "\<forall>a\<in>set as. v' \<le> tmax a"
        and hit: "v' = PosInf \<or> (\<exists>a\<in>set as. tmax a = v')"
        by auto
      have "v' \<le> Fin (min_value b)" using lb a2 by auto
      moreover from this have "v' \<noteq> PosInf" by auto
      with hit have "Fin (min_value b) \<le> v'" using tmax_ge by auto
      ultimately have "v' = Fin (min_value b)" by (rule antisym)
      then show ?thesis using run unfold_min by auto
    qed
    ultimately show ?thesis by blast
  qed
qed

subsection \<open>The player to move and the entry point\<close>

lemma result_count:
  assumes "a \<in> set (actions board)" "result board a = Inr child"
  shows "count child = count board + (if player board = X then 1 else - 1)"
proof -
  from assms(1) obtain i j where ij: "i < length board" "j < length (board ! i)"
    "board ! i ! j = EMPTY"
    and r: "result board a = Inr (board[i := (board ! i)[j := player board]])"
    by (auto elim: legal_result)
  with assms(2) have "child = board[i := (board ! i)[j := player board]]" by simp
  then show ?thesis using ij by (simp add: count_update player_def)
qed

lemma result_balanced:
  assumes "a \<in> set (actions board)" "result board a = Inr child"
    "count board = 0 \<or> count board = 1"
  shows "count child = 0 \<or> count child = 1" and "player child \<noteq> player board"
  using result_count [OF assms(1,2)] assms(3) by (auto simp: player_def)

lemma reachable_board:
  "reachable board \<Longrightarrow> is_board board \<and> (count board = 0 \<or> count board = 1)"
proof (induction rule: reachable.induct)
  case start
  show ?case by (simp add: is_board_initial_state) (simp add: initial_state_def count_def)
next
  case (move board action child)
  from is_board_result [of board action] move have "is_board child" by auto
  moreover have "count child = 0 \<or> count child = 1"
    using result_balanced(1) [of action board child] move by blast
  ultimately show ?case ..
qed

lemma player_cases: "player board = X \<or> player board = O'"
  by (simp add: player_def)

lemma optimal_value_alternates:
  "count b = 0 \<or> count b = 1 \<Longrightarrow>
     optimal_value b = (if player b = X then max_value b else min_value b)"
proof (induction "empties b" arbitrary: b rule: less_induct)
  case less
  show ?case
  proof (cases "game_over b")
    case True
    then show ?thesis by (simp add: optimal_value.simps max_value.simps min_value.simps)
  next
    case False
    have succ: "optimal_value c = (if player b = X then min_value c else max_value c)"
      if "c \<in> set (successors b)" for c
    proof -
      from that obtain a where a: "a \<in> set (actions b)" "result b a = Inr c"
        by (auto simp: successors_iff)
      have "empties c < empties b" using that by (rule successors_empties)
      moreover note bal = result_balanced [OF a less.prems]
      ultimately have "optimal_value c = (if player c = X then max_value c else min_value c)"
        using less.hyps by blast
      then show ?thesis using bal(2) player_cases [of b] player_cases [of c] by auto
    qed
    show ?thesis
    proof (cases "player b = X")
      case True
      then have "map optimal_value (successors b) = map min_value (successors b)"
        using succ by simp
      then show ?thesis using True False
        by (simp add: optimal_value.simps [of b] max_value.simps [of b])
    next
      case O: False
      then have "map optimal_value (successors b) = map max_value (successors b)"
        using succ by simp
      then show ?thesis using O False
        by (simp add: optimal_value.simps [of b] min_value.simps [of b])
    qed
  qed
qed

lemma fits_full: "fits NegInf PosInf (Fin t) s \<Longrightarrow> s = Fin t"
  by (cases s) (auto simp: fits_def less_score_def)

lemma empties_board: "is_board board \<Longrightarrow> int (empties board) \<le> ACCURACY"
  by (erule is_board_cases) (simp add: empties_def ACCURACY_def)

text \<open>What the search entry point returns on a board of a game that is not over.\<close>

lemma minimax_search:
  assumes "permutes sh" "is_board b" "count b = 0 \<or> count b = 1" "\<not> game_over b"
    "b \<noteq> initial_state"
  shows "\<exists>a r' child. minimax sh b r = Inr (Some a, r') \<and> a \<in> set (actions b)
      \<and> result b a = Inr child \<and> optimal_value child = optimal_value b"
proof -
  note sound = search_sound [OF assms(1,2) empties_board [OF assms(2)], of NegInf PosInf r]
  have opt: "optimal_value b = (if player b = X then max_value b else min_value b)"
    using assms(3) by (rule optimal_value_alternates)
  have child: "optimal_value c = (if player b = X then min_value c else max_value c)"
    if "a \<in> set (actions b)" "result b a = Inr c" for a c
    using optimal_value_alternates [OF result_balanced(1) [OF that assms(3)]]
      result_balanced(2) [OF that assms(3)] player_cases [of b] player_cases [of c]
    by auto
  show ?thesis
  proof (cases "player b = X")
    case True
    from sound obtain s act r' where
      run: "maxValue sh b ACCURACY NegInf PosInf r = Inr ((s, act), r')"
      and f: "fits NegInf PosInf (Fin (max_value b)) s"
      and pick: "\<not> game_over b \<longrightarrow> NegInf < s \<longrightarrow> s < PosInf \<longrightarrow>
             (\<exists>a\<in>set (actions b). act = Some a
                \<and> (\<exists>child. result b a = Inr child \<and> min_value child = max_value b))"
      by auto
    from fits_full [OF f] have "s = Fin (max_value b)" .
    with pick assms(4) obtain a c where "a \<in> set (actions b)" "act = Some a"
      "result b a = Inr c" "min_value c = max_value b"
      by auto
    then show ?thesis using run True assms(5) opt child [of a c]
      by (auto simp: minimax_def)
  next
    case False
    from sound obtain s act r' where
      run: "minValue sh b ACCURACY NegInf PosInf r = Inr ((s, act), r')"
      and f: "fits NegInf PosInf (Fin (min_value b)) s"
      and pick: "\<not> game_over b \<longrightarrow> NegInf < s \<longrightarrow> s < PosInf \<longrightarrow>
             (\<exists>a\<in>set (actions b). act = Some a
                \<and> (\<exists>child. result b a = Inr child \<and> max_value child = min_value b))"
      by auto
    from fits_full [OF f] have "s = Fin (min_value b)" .
    with pick assms(4) obtain a c where "a \<in> set (actions b)" "act = Some a"
      "result b a = Inr c" "max_value c = min_value b"
      by auto
    then show ?thesis using run False assms(5) opt child [of a c]
      by (auto simp: minimax_def)
  qed
qed

lemma payoff_range: "- 1 \<le> payoff b \<and> payoff b \<le> 1"
  by (auto simp: payoff_def utility_def split: sum.splits)

lemma value_range:
  "(- 1 \<le> max_value b \<and> max_value b \<le> 1) \<and> (- 1 \<le> min_value b \<and> min_value b \<le> 1)"
proof (induction "empties b" arbitrary: b rule: less_induct)
  case less
  show ?case
  proof (cases "game_over b")
    case True
    then show ?thesis using payoff_range [of b] by (simp add: max_value.simps min_value.simps)
  next
    case False
    from max_value_attained [OF False] obtain a c where
      a: "a \<in> set (actions b)" "result b a = Inr c" "min_value c = max_value b" by blast
    from min_value_attained [OF False] obtain a' c' where
      a': "a' \<in> set (actions b)" "result b a' = Inr c'" "max_value c' = min_value b" by blast
    have "empties c < empties b" "empties c' < empties b"
      using a a' by (auto intro!: successors_empties simp: successors_iff)
    from less.hyps [OF this(1)] less.hyps [OF this(2)] a(3) a'(3) show ?thesis by auto
  qed
qed

subsection \<open>Completing a line\<close>

lemma completes_3x3:
  assumes "winner [[a0, a1, a2], [b0, b1, b2], [c0, c1, c2]] = Inr EMPTY"
    and "player [[a0, a1, a2], [b0, b1, b2], [c0, c1, c2]] = X"
    and "completes [[a0, a1, a2], [b0, b1, b2], [c0, c1, c2]] X a"
  shows "a \<in> set (actions [[a0, a1, a2], [b0, b1, b2], [c0, c1, c2]]) \<and>
    (\<exists>c. result [[a0, a1, a2], [b0, b1, b2], [c0, c1, c2]] a = Inr c \<and> winner c = Inr X)"
  using assms(3) assms(1,2)
  unfolding completes_def lines_def list_ex_Cons_iff list_ex_Nil_iff case_prod_conv at_3x3 sum.inject
  apply -
  apply (elim disjE conjE FalseE)
  apply (simp_all add: actions_3x3 result_3x3 winner_3x3 three_def split: if_splits)
  apply blast+
  done

section \<open>The value of the opening\<close>

text \<open>
  Two runs of the search, with the centre-first source and narrow windows, evaluated by
  rewriting: the board after the corner opening is worth at least \<open>0\<close> to \<open>X\<close>, and the
  initial state at most \<open>0\<close>.
\<close>

lemma permutes_in_order: "permutes in_order"
  by (simp add: permutes_def in_order_def)

lemma permutes_reversed: "permutes reversed"
  by (simp add: permutes_def reversed_def)

lemma permutes_by_place: "permutes by_place"
  unfolding permutes_def by_place_def
  by (auto simp: multiset_eq_iff count_mset intro: arg_cong)

lemmas run_search =
  maxValue.simps minValue.simps maxLoop.simps minLoop.simps by_place_def terminal_def leaf_def
  utility_def winner_3x3 three_def actions_3x3 result_3x3 player_3x3 less_score_def
  less_eq_score.simps min_def max_def truthy.simps depth_steps int_order if_True if_False
  sum.case prod.case simp_thms cell.distinct score.distinct pyvalue.distinct append.simps
  list.distinct filter.simps length_steps nat.inject nat.distinct Let_def prod.inject
  fst_conv snd_conv

lemma search_after_corner:
  "minValue by_place [[X, EMPTY, EMPTY], [EMPTY, EMPTY, EMPTY], [EMPTY, EMPTY, EMPTY]] 9
     (Fin (- 1)) (Fin 0) () = Inr ((Fin 0, Some (1, 1)), ())"
  by (simp only: run_search cong: sum.case_cong_weak prod.case_cong_weak if_weak_cong)

lemma search_initial_state:
  "maxValue by_place [[EMPTY, EMPTY, EMPTY], [EMPTY, EMPTY, EMPTY], [EMPTY, EMPTY, EMPTY]] 9
     (Fin 0) (Fin 1) () = Inr ((Fin 0, Some (1, 1)), ())"
  by (simp only: run_search cong: sum.case_cong_weak prod.case_cong_weak if_weak_cong)



lemma game_over_initial_state: "\<not> game_over initial_state"
  by (simp add: game_over_def terminal_initial_state)

lemma result_corner:
  "result initial_state (0, 0) = Inr [[X, EMPTY, EMPTY], [EMPTY, EMPTY, EMPTY], [EMPTY, EMPTY, EMPTY]]"
  by (simp add: initial_state_def result_3x3 player_3x3)

lemma value_initial_state:
  "max_value initial_state = 0"
  "min_value [[X, EMPTY, EMPTY], [EMPTY, EMPTY, EMPTY], [EMPTY, EMPTY, EMPTY]] = 0"
proof -
  let ?B = "[[X, EMPTY, EMPTY], [EMPTY, EMPTY, EMPTY], [EMPTY, EMPTY, EMPTY]]"
  have b: "is_board ?B" "int (empties ?B) \<le> 9"
    by (simp_all add: is_board_def empties_def)
  have i: "int (empties initial_state) \<le> 9"
    by (simp add: initial_state_def empties_def)
  have "Fin (- 1) < Fin 0" "Fin 0 < Fin 1" by simp_all
  note w = this
  from search_sound [OF permutes_by_place b w(1), where r = "()"]
  obtain s act r' where "minValue by_place ?B 9 (Fin (- 1)) (Fin 0) () = Inr ((s, act), r')"
    and f: "fits (Fin (- 1)) (Fin 0) (Fin (min_value ?B)) s"
    by blast
  then have "s = Fin 0" unfolding search_after_corner by simp
  with f have lower: "0 \<le> min_value ?B" by (simp add: fits_def)
  from search_sound [OF permutes_by_place is_board_initial_state i w(2), where r = "()"]
  obtain s' act' r'' where "maxValue by_place initial_state 9 (Fin 0) (Fin 1) () = Inr ((s', act'), r'')"
    and f': "fits (Fin 0) (Fin 1) (Fin (max_value initial_state)) s'"
    by blast
  then have "s' = Fin 0" unfolding initial_state_def search_initial_state by simp
  with f' have upper: "max_value initial_state \<le> 0" by (simp add: fits_def)
  have "(0, 0) \<in> set (actions initial_state)"
    by (simp add: initial_state_def actions_3x3)
  from max_value_ge [OF game_over_initial_state this result_corner]
  have "min_value ?B \<le> max_value initial_state" .
  with lower upper show "max_value initial_state = 0" "min_value ?B = 0" by simp_all
qed

lemma opening_value:
  "optimal_value [[X, EMPTY, EMPTY], [EMPTY, EMPTY, EMPTY], [EMPTY, EMPTY, EMPTY]]
     = optimal_value initial_state"
proof -
  have "optimal_value initial_state = max_value initial_state"
    by (subst optimal_value_alternates) (simp_all add: initial_state_def count_3x3 player_3x3)
  moreover have "optimal_value [[X, EMPTY, EMPTY], [EMPTY, EMPTY, EMPTY], [EMPTY, EMPTY, EMPTY]]
      = min_value [[X, EMPTY, EMPTY], [EMPTY, EMPTY, EMPTY], [EMPTY, EMPTY, EMPTY]]"
    by (subst optimal_value_alternates) (simp_all add: count_3x3 player_3x3)
  ultimately show ?thesis by (simp add: value_initial_state)
qed

lemma reachable_example:
  "reachable [[X, X, EMPTY], [EMPTY, O', O'], [EMPTY, O', X]]"
proof -
  have "reachable [[X, EMPTY, EMPTY], [EMPTY, EMPTY, EMPTY], [EMPTY, EMPTY, EMPTY]]"
    by (rule reachable.move [OF reachable.start, of "(0, 0)"])
      (simp_all add: initial_state_def actions_3x3 result_3x3 player_3x3)
  then have "reachable [[X, EMPTY, EMPTY], [EMPTY, O', EMPTY], [EMPTY, EMPTY, EMPTY]]"
    by (rule reachable.move [of _ "(1, 1)"]) (simp_all add: actions_3x3 result_3x3 player_3x3)
  then have "reachable [[X, X, EMPTY], [EMPTY, O', EMPTY], [EMPTY, EMPTY, EMPTY]]"
    by (rule reachable.move [of _ "(0, 1)"]) (simp_all add: actions_3x3 result_3x3 player_3x3)
  then have "reachable [[X, X, EMPTY], [EMPTY, O', O'], [EMPTY, EMPTY, EMPTY]]"
    by (rule reachable.move [of _ "(1, 2)"]) (simp_all add: actions_3x3 result_3x3 player_3x3)
  then have "reachable [[X, X, EMPTY], [EMPTY, O', O'], [EMPTY, EMPTY, X]]"
    by (rule reachable.move [of _ "(2, 2)"]) (simp_all add: actions_3x3 result_3x3 player_3x3)
  then show ?thesis
    by (rule reachable.move [of _ "(2, 1)"]) (simp_all add: actions_3x3 result_3x3 player_3x3)
qed

lemma terminal_example:
  "terminal [[X, X, EMPTY], [EMPTY, O', O'], [EMPTY, O', X]] = Inr (Bool False)"
  by (simp add: terminal_def winner_3x3 three_def actions_3x3)

lemmas run_minimax =
  maxValue.simps minValue.simps minimax_def ACCURACY_def initial_state_def reversed_def in_order_def terminal_def leaf_def
  utility_def winner_3x3 three_def actions_3x3 result_3x3 player_3x3 less_score_def

lemma minimax_example_reversed:
  "minimax reversed [[X, X, EMPTY], [EMPTY, O', O'], [EMPTY, O', X]] () = Inr (Some (1, 0), ())"
  by (simp add: run_minimax cong: sum.case_cong_weak prod.case_cong_weak)

lemma minimax_example_in_order:
  "minimax in_order [[X, X, EMPTY], [EMPTY, O', O'], [EMPTY, O', X]] () = Inr (Some (0, 2), ())"
  by (simp add: run_minimax cong: sum.case_cong_weak prod.case_cong_weak)


section \<open>What the search returns\<close>

text \<open>
  C1.  On every board reachable from the initial state by legal actions on which the game is
  not over, and for every random source whose shuffle permutes its list, \<^verbatim>\<open>minimax\<close>
  returns an action that is legal on the board and leads to a board of the same value under
  optimal play as the board itself: an optimal action.
\<close>

theorem minimax_returns_optimal_action:
  assumes "permutes shuffle" "reachable board" "terminal board = Inr t" "\<not> truthy t"
  shows "\<exists>action rng' child. minimax shuffle board rng = Inr (Some action, rng')
      \<and> action \<in> set (actions board) \<and> result board action = Inr child
      \<and> optimal_value child = optimal_value board"
proof (cases "board = initial_state")
  case True
  then show ?thesis
    using result_corner opening_value
    by (simp add: minimax_def) (simp add: initial_state_def actions_3x3)
next
  case False
  from reachable_board [OF assms(2)] have "is_board board" "count board = 0 \<or> count board = 1"
    by simp_all
  moreover have "\<not> game_over board" using assms(3,4) by (simp add: game_over_def)
  ultimately show ?thesis using assms(1) False by (intro minimax_search)
qed

theorem minimax_returns_optimal_action_witness:
  "permutes reversed \<and> reachable [[X, X, EMPTY], [EMPTY, O', O'], [EMPTY, O', X]]
   \<and> terminal [[X, X, EMPTY], [EMPTY, O', O'], [EMPTY, O', X]] = Inr (Bool False)
   \<and> \<not> truthy (Bool False)
   \<and> (\<exists>action rng' child.
         minimax reversed [[X, X, EMPTY], [EMPTY, O', O'], [EMPTY, O', X]] () = Inr (Some action, rng')
       \<and> action \<in> set (actions [[X, X, EMPTY], [EMPTY, O', O'], [EMPTY, O', X]])
       \<and> result [[X, X, EMPTY], [EMPTY, O', O'], [EMPTY, O', X]] action = Inr child
       \<and> optimal_value child = optimal_value [[X, X, EMPTY], [EMPTY, O', O'], [EMPTY, O', X]])"
  using minimax_returns_optimal_action [OF permutes_reversed reachable_example terminal_example, of "()"]
    permutes_reversed reachable_example terminal_example
  by simp

text \<open>
  C2.  On every reachable board, for every permuting shuffle and state of the random source,
  \<^verbatim>\<open>maxValue\<close> called with \<open>-\<infinity>\<close> and \<open>+\<infinity>\<close> returns the same value as the search without the
  \<^verbatim>\<open>break\<close>, and so does \<^verbatim>\<open>minValue\<close>; the actions returned with the value may differ.
\<close>

theorem pruning_keeps_value:
  assumes "permutes shuffle" "reachable board"
  shows "(\<exists>v a rng1 a' rng2.
            maxValue shuffle board ACCURACY NegInf PosInf rng = Inr ((v, a), rng1)
          \<and> maxValue_unpruned shuffle board ACCURACY NegInf PosInf rng = Inr ((v, a'), rng2))
       \<and> (\<exists>v a rng1 a' rng2.
            minValue shuffle board ACCURACY NegInf PosInf rng = Inr ((v, a), rng1)
          \<and> minValue_unpruned shuffle board ACCURACY NegInf PosInf rng = Inr ((v, a'), rng2))"
proof -
  from reachable_board [OF assms(2)] have b: "is_board board" by simp
  note d = empties_board [OF b]
  have "NegInf < PosInf" by simp
  note sound = search_sound [OF assms(1) b d this, where r = rng]
  from sound obtain s1 a1 r1 where
    m1: "maxValue shuffle board ACCURACY NegInf PosInf rng = Inr ((s1, a1), r1)"
    and f1: "fits NegInf PosInf (Fin (max_value board)) s1"
    by blast
  from sound obtain s2 a2 r2 where
    m2: "minValue shuffle board ACCURACY NegInf PosInf rng = Inr ((s2, a2), r2)"
    and f2: "fits NegInf PosInf (Fin (min_value board)) s2"
    by blast
  have "s1 = Fin (max_value board)" "s2 = Fin (min_value board)"
    using f1 f2 by (auto dest: fits_full)
  with m1 m2 show ?thesis
    using unpruned_sound [OF assms(1) b d, of NegInf PosInf rng] by auto
qed

theorem pruning_keeps_value_witness:
  "permutes reversed \<and> reachable [[X, X, EMPTY], [EMPTY, O', O'], [EMPTY, O', X]]
   \<and> (\<exists>v a rng1 a' rng2.
         maxValue reversed [[X, X, EMPTY], [EMPTY, O', O'], [EMPTY, O', X]] ACCURACY NegInf PosInf ()
           = Inr ((v, a), rng1)
       \<and> maxValue_unpruned reversed [[X, X, EMPTY], [EMPTY, O', O'], [EMPTY, O', X]] ACCURACY
           NegInf PosInf () = Inr ((v, a'), rng2))
   \<and> (\<exists>v a rng1 a' rng2.
         minValue reversed [[X, X, EMPTY], [EMPTY, O', O'], [EMPTY, O', X]] ACCURACY NegInf PosInf ()
           = Inr ((v, a), rng1)
       \<and> minValue_unpruned reversed [[X, X, EMPTY], [EMPTY, O', O'], [EMPTY, O', X]] ACCURACY
           NegInf PosInf () = Inr ((v, a'), rng2))"
  using pruning_keeps_value [OF permutes_reversed reachable_example, of "()"] permutes_reversed reachable_example
  by simp

text \<open>
  C9.  On the initial state \<^verbatim>\<open>minimax\<close> returns \<open>(0, 0)\<close> and leaves the random source
  untouched, and the board after \<open>(0, 0)\<close> has the value of the initial state under optimal
  play.
\<close>

theorem opening_corner_optimal:
  "minimax shuffle initial_state rng = Inr (Some (0, 0), rng)
   \<and> (\<exists>child. result initial_state (0, 0) = Inr child
          \<and> optimal_value child = optimal_value initial_state)"
  using result_corner opening_value by (simp add: minimax_def)

text \<open>
  C4, as the code has it.  On a board where it is \<open>X\<close>'s turn, the game is not over and some
  empty cell completes a line of \<open>X\<close>, \<^verbatim>\<open>minimax\<close> returns a legal action after which \<open>X\<close>
  wins under optimal play (the board and the chosen successor both have value \<open>1\<close>); the
  docstring of \<^verbatim>\<open>minimax\<close> says that it need not be the move that wins at once.
\<close>

theorem minimax_takes_a_win:
  assumes "permutes shuffle" "is_board board" "player board = X"
    "terminal board = Inr t" "\<not> truthy t" "completes board X a0"
  shows "\<exists>action rng' child. minimax shuffle board rng = Inr (Some action, rng')
      \<and> action \<in> set (actions board) \<and> result board action = Inr child
      \<and> optimal_value child = 1 \<and> optimal_value board = 1"
proof -
  have over: "\<not> game_over board" using assms(4,5) by (simp add: game_over_def)
  have bal: "count board = 0 \<or> count board = 1"
    using assms(3) by (auto simp: player_def split: if_splits)
  have w: "winner board = Inr EMPTY"
    using assms(4,5) by (auto simp: terminal_def split: sum.splits if_splits)
  from assms(2) obtain a0' a1 a2 b0 b1 b2 c0 c1 c2 where
    B: "board = [[a0', a1, a2], [b0, b1, b2], [c0, c1, c2]]"
    by (rule is_board_cases)
  from completes_3x3 [of a0' a1 a2 b0 b1 b2 c0 c1 c2 a0] w assms(3,6)
  obtain c where c: "a0 \<in> set (actions board)" "result board a0 = Inr c" "winner c = Inr X"
    unfolding B by blast
  have "game_over c" "payoff c = 1"
    using c(3) by (simp_all add: game_over_def terminal_def payoff_def utility_def)
  then have "min_value c = 1" by (simp add: min_value.simps)
  with max_value_ge [OF over c(1,2)] value_range [of board] have "max_value board = 1"
    by simp
  then have one: "optimal_value board = 1"
    using optimal_value_alternates [OF bal] assms(3) by simp
  show ?thesis
  proof (cases "board = initial_state")
    case True
    with assms(6) show ?thesis
      by (simp add: completes_def lines_def initial_state_def at_3x3)
  next
    case False
    from minimax_search [OF assms(1,2) bal over False, of rng] one show ?thesis by auto
  qed
qed

theorem minimax_takes_a_win_witness:
  "permutes in_order \<and> is_board [[X, X, EMPTY], [EMPTY, O', O'], [EMPTY, O', X]]
   \<and> player [[X, X, EMPTY], [EMPTY, O', O'], [EMPTY, O', X]] = X
   \<and> terminal [[X, X, EMPTY], [EMPTY, O', O'], [EMPTY, O', X]] = Inr (Bool False)
   \<and> \<not> truthy (Bool False)
   \<and> completes [[X, X, EMPTY], [EMPTY, O', O'], [EMPTY, O', X]] X (0, 2)
   \<and> (\<exists>action rng' child.
         minimax in_order [[X, X, EMPTY], [EMPTY, O', O'], [EMPTY, O', X]] () = Inr (Some action, rng')
       \<and> action \<in> set (actions [[X, X, EMPTY], [EMPTY, O', O'], [EMPTY, O', X]])
       \<and> result [[X, X, EMPTY], [EMPTY, O', O'], [EMPTY, O', X]] action = Inr child
       \<and> optimal_value child = 1
       \<and> optimal_value [[X, X, EMPTY], [EMPTY, O', O'], [EMPTY, O', X]] = 1)"
proof -
  have h: "is_board [[X, X, EMPTY], [EMPTY, O', O'], [EMPTY, O', X]]"
    "player [[X, X, EMPTY], [EMPTY, O', O'], [EMPTY, O', X]] = X"
    "completes [[X, X, EMPTY], [EMPTY, O', O'], [EMPTY, O', X]] X (0, 2)"
    by (simp_all add: is_board_def player_3x3 completes_def lines_def at_3x3)
  show ?thesis
    using minimax_takes_a_win [OF permutes_in_order h(1,2) terminal_example _ h(3), of "()"]
      permutes_in_order h terminal_example
    by simp
qed

text \<open>
  C4 as stated fails.  On this reachable board \<open>X\<close> is to move and \<open>(0, 2)\<close> completes the
  top row; with the actions visited in reverse order \<^verbatim>\<open>minimax\<close> returns \<open>(1, 0)\<close>, which
  completes no line but leaves \<open>X\<close> two ways to win.
\<close>

theorem minimax_skips_completing_cell:
  "permutes reversed
   \<and> reachable [[X, X, EMPTY], [EMPTY, O', O'], [EMPTY, O', X]]
   \<and> player [[X, X, EMPTY], [EMPTY, O', O'], [EMPTY, O', X]] = X
   \<and> completes [[X, X, EMPTY], [EMPTY, O', O'], [EMPTY, O', X]] X (0, 2)
   \<and> minimax reversed [[X, X, EMPTY], [EMPTY, O', O'], [EMPTY, O', X]] () = Inr (Some (1, 0), ())
   \<and> \<not> completes [[X, X, EMPTY], [EMPTY, O', O'], [EMPTY, O', X]] X (1, 0)"
  using permutes_reversed reachable_example minimax_example_reversed
  by (simp add: player_3x3 completes_def lines_def at_3x3)


end
